theory Spec2Isabelle
  imports Main "HOL-Library.Sublist"
begin

section \<open>The Faculty datasets artifact repository (mlflow\_faculty/artifacts.py)\<close>

text \<open>
  A shallow embedding of \<^verbatim>\<open>FacultyDatasetsArtifactRepository\<close>. Python strings are
  \<^typ>\<open>string\<close>, an exception is the left summand of a sum type, the calls the adapter
  delegates to the dataset service are values of a datatype of calls, and the paginated
  listing threads the state of the object-store client explicitly.
\<close>

subsection \<open>Python string methods used by the adapter\<close>

abbreviation sep :: char where
  "sep \<equiv> CHR ''/''"

text \<open>\<^verbatim>\<open>s.lstrip(chars)\<close>, \<^verbatim>\<open>s.rstrip(chars)\<close>, \<^verbatim>\<open>s.strip(chars)\<close>.\<close>

definition lstrip :: "string \<Rightarrow> string \<Rightarrow> string" where
  "lstrip chars s = dropWhile (\<lambda>c. c \<in> set chars) s"

definition rstrip :: "string \<Rightarrow> string \<Rightarrow> string" where
  "rstrip chars s = rev (dropWhile (\<lambda>c. c \<in> set chars) (rev s))"

definition strip :: "string \<Rightarrow> string \<Rightarrow> string" where
  "strip chars s = rstrip chars (lstrip chars s)"

text \<open>\<^verbatim>\<open>s.startswith(p)\<close> and \<^verbatim>\<open>s.endswith(p)\<close>.\<close>

definition startswith :: "string \<Rightarrow> string \<Rightarrow> bool" where
  "startswith s p = (take (length p) s = p)"

definition endswith :: "string \<Rightarrow> string \<Rightarrow> bool" where
  "endswith s p = (length p \<le> length s \<and> drop (length s - length p) s = p)"

text \<open>\<^verbatim>\<open>s.split(c, 1)\<close> for a one-character separator: one element when the separator
  does not occur, otherwise the text before its first occurrence and the text after it.\<close>

definition split1 :: "char \<Rightarrow> string \<Rightarrow> string list" where
  "split1 c s =
     (case dropWhile (\<lambda>x. x \<noteq> c) s of
        [] \<Rightarrow> [s]
      | _ # rest \<Rightarrow> [takeWhile (\<lambda>x. x \<noteq> c) s, rest])"

text \<open>\<^verbatim>\<open>s.split(c)\<close> for a one-character separator: every maximal separator-free piece,
  empty pieces included.\<close>

fun split :: "char \<Rightarrow> string \<Rightarrow> string list" where
  "split c [] = [[]]"
| "split c (x # xs) =
     (if x = c then [] # split c xs
      else (case split c xs of [] \<Rightarrow> [[x]] | p # ps \<Rightarrow> (x # p) # ps))"

text \<open>\<^verbatim>\<open>j.join(parts)\<close>.\<close>

fun join_str :: "string \<Rightarrow> string list \<Rightarrow> string" where
  "join_str j [] = []"
| "join_str j [p] = p"
| "join_str j (p # q # ps) = p @ j @ join_str j (q # ps)"

subsection \<open>posixpath\<close>

text \<open>\<^verbatim>\<open>posixpath.join(a, b)\<close> with one further component, as every call of the adapter has.\<close>

definition join :: "string \<Rightarrow> string \<Rightarrow> string" where
  "join a b =
     (if startswith b [sep] then b
      else if a = [] \<or> endswith a [sep] then a @ b
      else a @ [sep] @ b)"

text \<open>The loop body of \<^verbatim>\<open>posixpath.normpath\<close>: one component against the components
  kept so far.\<close>

definition norm_step :: "nat \<Rightarrow> string list \<Rightarrow> string \<Rightarrow> string list" where
  "norm_step initial_slashes new_comps component =
     (if component = [] \<or> component = ''.'' then new_comps
      else if component \<noteq> ''..'' \<or> (initial_slashes = 0 \<and> new_comps = [])
              \<or> (new_comps \<noteq> [] \<and> last new_comps = ''..'')
           then new_comps @ [component]
      else if new_comps \<noteq> [] then butlast new_comps
      else new_comps)"

definition initial_slashes :: "string \<Rightarrow> nat" where
  "initial_slashes path =
     (if \<not> startswith path [sep] then 0
      else if startswith path [sep, sep] \<and> \<not> startswith path [sep, sep, sep] then 2
      else 1)"

definition normpath :: "string \<Rightarrow> string" where
  "normpath path =
     (if path = [] then ''.''
      else
        let k = initial_slashes path;
            comps = foldl (norm_step k) [] (split sep path);
            joined = join_str [sep] comps;
            res = (if k \<noteq> 0 then replicate k sep @ joined else joined)
        in if res = [] then ''.'' else res)"

text \<open>\<^verbatim>\<open>posixpath.basename\<close> and \<^verbatim>\<open>posixpath.dirname\<close> (\<^verbatim>\<open>os.path\<close> on a POSIX system):
  both cut at the last separator, \<^verbatim>\<open>i = p.rfind('/') + 1\<close>.\<close>

definition basename :: "string \<Rightarrow> string" where
  "basename p = rev (takeWhile (\<lambda>c. c \<noteq> sep) (rev p))"

definition dirname :: "string \<Rightarrow> string" where
  "dirname p =
     (let head = rev (dropWhile (\<lambda>c. c \<noteq> sep) (rev p))
      in if head \<noteq> [] \<and> head \<noteq> replicate (length head) sep then rstrip [sep] head
         else head)"

subsection \<open>Construction\<close>

text \<open>Every exception the constructor can raise is a \<^verbatim>\<open>ValueError\<close> with a message.\<close>

datatype error = ValueError string

text \<open>The three fields of the result of \<^verbatim>\<open>urllib.parse.urlparse\<close> that the constructor
  reads.\<close>

record parse_result =
  scheme :: string
  netloc :: string
  path :: string

record 'u repository =
  project_id :: 'u
  datasets_artifact_root :: string

text \<open>The three messages of the constructor.\<close>

definition not_faculty_uri :: "string \<Rightarrow> string" where
  "not_faculty_uri artifact_uri = ''Not a Faculty datasets URI: '' @ artifact_uri"

definition netloc_reserved :: "string \<Rightarrow> string \<Rightarrow> string \<Rightarrow> string" where
  "netloc_reserved artifact_uri nl p =
     ''Invalid URI '' @ artifact_uri @ ''. Netloc is reserved. Did you mean ''
       @ [CHR 0x27] @ ''faculty-datasets:'' @ nl @ p @ [CHR 0x27]"

definition not_valid_uuid :: "string \<Rightarrow> string \<Rightarrow> string" where
  "not_valid_uuid first_part artifact_uri =
     first_part @ '' in given URI '' @ artifact_uri @ '' is not a valid UUID''"

text \<open>
  \<^verbatim>\<open>__init__\<close>. The two standard-library functions it calls are parameters: \<open>urlparse\<close>
  is \<^verbatim>\<open>urllib.parse.urlparse\<close> (which may itself raise) and \<open>UUID\<close> is the constructor
  \<^verbatim>\<open>uuid.UUID\<close>, whose \<^verbatim>\<open>ValueError\<close> the constructor catches and replaces. Unpacking
  the result of \<^verbatim>\<open>split("/", 1)\<close> into two names raises when there are not two parts.
\<close>

definition init ::
  "(string \<Rightarrow> error + parse_result) \<Rightarrow> (string \<Rightarrow> error + 'u) \<Rightarrow> string
     \<Rightarrow> error + 'u repository" where
  "init urlparse UUID artifact_uri =
     (case urlparse artifact_uri of
        Inl e \<Rightarrow> Inl e
      | Inr parsed_uri \<Rightarrow>
          if parse_result.scheme parsed_uri \<noteq> ''faculty-datasets''
            then Inl (ValueError (not_faculty_uri artifact_uri))
          else if parse_result.netloc parsed_uri \<noteq> []
            then Inl (ValueError
                   (netloc_reserved artifact_uri (parse_result.netloc parsed_uri)
                      (parse_result.path parsed_uri)))
          else
            let cleaned_path = strip [sep] (parse_result.path parsed_uri) @ [sep]
            in (case split1 sep cleaned_path of
                  [first_part, remainder] \<Rightarrow>
                    (case UUID first_part of
                       Inl _ \<Rightarrow> Inl (ValueError (not_valid_uuid first_part artifact_uri))
                     | Inr u \<Rightarrow>
                         Inr \<lparr>project_id = u, datasets_artifact_root = [sep] @ remainder\<rparr>)
                | _ \<Rightarrow> Inl (ValueError ''not enough values to unpack (expected 2, got 1)'')))"

subsection \<open>Path translation and the delegated calls\<close>

text \<open>\<^verbatim>\<open>_datasets_path\<close>.\<close>

definition datasets_path :: "'u repository \<Rightarrow> string \<Rightarrow> string" where
  "datasets_path self artifact_path =
     normpath (join (datasets_artifact_root self) (lstrip [sep] artifact_path))"

text \<open>
  The calls the adapter makes on its collaborators, with their arguments in the order of
  the source: \<^verbatim>\<open>datasets.put(source, destination, project_id)\<close>,
  \<^verbatim>\<open>datasets.get(source, destination, project_id)\<close> and
  \<^verbatim>\<open>client.list(project_id, prefix)\<close> or \<^verbatim>\<open>client.list(project_id, prefix, token)\<close>.
\<close>

datatype 'u call =
    Put string string 'u
  | Get string string 'u
  | ListCall 'u string "string option"

definition log_artifact :: "'u repository \<Rightarrow> string \<Rightarrow> string option \<Rightarrow> 'u call" where
  "log_artifact self local_file artifact_path =
     (let artifact_path = (case artifact_path of None \<Rightarrow> ''./'' | Some p \<Rightarrow> p);
          dest_path = join artifact_path (basename local_file);
          dpath = datasets_path self dest_path
      in Put local_file dpath (project_id self))"

definition log_artifacts :: "'u repository \<Rightarrow> string \<Rightarrow> string option \<Rightarrow> 'u call" where
  "log_artifacts self local_dir artifact_path =
     (let artifact_path = (case artifact_path of None \<Rightarrow> ''./'' | Some p \<Rightarrow> p);
          dpath = datasets_path self artifact_path
      in Put local_dir dpath (project_id self))"

definition download_file :: "'u repository \<Rightarrow> string \<Rightarrow> string \<Rightarrow> 'u call" where
  "download_file self remote_file_path local_path =
     (let dpath = datasets_path self remote_file_path
      in Get dpath local_path (project_id self))"

subsection \<open>Listing\<close>

text \<open>The response of \<^verbatim>\<open>client.list\<close> and the \<^verbatim>\<open>FileInfo\<close> the converter returns.\<close>

record 'o list_response =
  objects :: "'o list"
  next_page_token :: "string option"

record file_info =
  path :: string
  is_dir :: bool
  file_size :: "int option"

text \<open>
  The object-store client is a collaborator with a state of its own: a call takes the state,
  the project, the prefix and the page token (\<open>None\<close> when the call has two arguments) and
  returns the response and the next state.
\<close>

type_synonym ('s, 'u, 'o) client =
  "'s \<Rightarrow> 'u \<Rightarrow> string \<Rightarrow> string option \<Rightarrow> 'o list_response \<times> 's"

text \<open>
  The \<^verbatim>\<open>while\<close> loop of \<^verbatim>\<open>list_artifacts\<close>. Its variables are the last response, the
  objects accumulated so far and the state of the client; the calls issued so far are
  recorded as well. The loop has no bound, so not returning is the value \<open>None\<close>.
\<close>

partial_function (option) list_loop ::
  "('s, 'u, 'o) client \<Rightarrow> 'u \<Rightarrow> string \<Rightarrow> 'o list_response \<Rightarrow> 'o list \<Rightarrow> 'u call list \<Rightarrow> 's
     \<Rightarrow> ('o list \<times> 'u call list \<times> 's) option" where
  "list_loop client pid pfx list_response objs calls s =
     (case next_page_token list_response of
        None \<Rightarrow> Some (objs, calls, s)
      | Some token \<Rightarrow>
          (case client s pid pfx (Some token) of
             (list_response', s') \<Rightarrow>
               list_loop client pid pfx list_response'
                 (objs @ objects list_response')
                 (calls @ [ListCall pid pfx (Some token)]) s'))"

declare list_loop.simps [code]

text \<open>Lines 106 to 113 of the source: the first call of \<^verbatim>\<open>client.list\<close>, with two
  arguments, and the loop. The result is the accumulated objects, the calls made on the
  client in their order and the client's final state.\<close>

definition list_objects ::
  "('s, 'u, 'o) client \<Rightarrow> 'u \<Rightarrow> string \<Rightarrow> 's \<Rightarrow> ('o list \<times> 'u call list \<times> 's) option" where
  "list_objects client pid pfx s =
     (case client s pid pfx None of
        (list_response, s1) \<Rightarrow>
          list_loop client pid pfx list_response (objects list_response)
            [ListCall pid pfx None] s1)"

text \<open>The condition of the final list comprehension of \<^verbatim>\<open>list_artifacts\<close>.\<close>

definition keep :: "string \<Rightarrow> bool \<Rightarrow> file_info \<Rightarrow> bool" where
  "keep p recursive i =
     (file_info.path i \<notin> {''/'', ''.''}
      \<and> (dirname (file_info.path i) \<in> {[], p} \<or> recursive))"

text \<open>
  \<^verbatim>\<open>list_artifacts\<close>. The client that \<^verbatim>\<open>faculty.client("object")\<close> returns and the converter
  \<^verbatim>\<open>faculty_object_to_mlflow_file_info\<close> are parameters. The result is the returned list
  together with the calls made on the client and the client's final state.
\<close>

definition list_artifacts ::
  "('s, 'u, 'o) client \<Rightarrow> ('o \<Rightarrow> string \<Rightarrow> file_info) \<Rightarrow> 'u repository
     \<Rightarrow> string option \<Rightarrow> bool \<Rightarrow> 's \<Rightarrow> (file_info list \<times> 'u call list \<times> 's) option" where
  "list_artifacts client converter self path_arg recursive s =
     (let p = (case path_arg of None \<Rightarrow> ''./'' | Some q \<Rightarrow> q);
          dpath = datasets_path self p;
          pfx = rstrip [sep] dpath @ [sep]
      in case list_objects client (project_id self) pfx s of
           None \<Rightarrow> None
         | Some (objs, calls, s2) \<Rightarrow>
             let infos = map (\<lambda>obj. converter obj (datasets_artifact_root self)) objs
             in Some (filter (keep p recursive) infos, calls, s2))"

subsection \<open>The standard-library parsers at literal inputs\<close>

text \<open>
  The constructor is verified for every \<open>urlparse\<close> and every \<open>UUID\<close>. Where a literal
  URI is evaluated, these two definitions stand for \<^verbatim>\<open>urllib.parse.urlparse\<close> and
  \<^verbatim>\<open>uuid.UUID\<close> as CPython 3.11 defines them on ASCII text. Left out: validating a
  bracketed host (a netloc with both \<^verbatim>\<open>[\<close> and \<^verbatim>\<open>]\<close> is taken as it is) and the NFKC
  check of a non-ASCII netloc.
\<close>

definition scheme_chars :: string where
  "scheme_chars = ''abcdefghijklmnopqrstuvwxyzABCDEFGHIJKLMNOPQRSTUVWXYZ0123456789+-.''"

definition uses_params :: "string list" where
  "uses_params = ['''', ''ftp'', ''hdl'', ''prospero'', ''http'', ''imap'', ''https'',
     ''shttp'', ''rtsp'', ''rtsps'', ''rtspu'', ''sip'', ''sips'', ''mms'', ''sftp'', ''tel'']"

definition is_ascii_alpha :: "char \<Rightarrow> bool" where
  "is_ascii_alpha c =
     (let n = (of_char c :: nat) in (65 \<le> n \<and> n \<le> 90) \<or> (97 \<le> n \<and> n \<le> 122))"

definition lower :: "string \<Rightarrow> string" where
  "lower s =
     map (\<lambda>c. let n = (of_char c :: nat) in if 65 \<le> n \<and> n \<le> 90 then char_of (n + 32) else c) s"

text \<open>The first component of \<^verbatim>\<open>_splitparams(url)\<close>: the text up to the first \<^verbatim>\<open>;\<close> of the
  last path segment.\<close>

definition splitparams :: "string \<Rightarrow> string" where
  "splitparams url =
     rev (dropWhile (\<lambda>c. c \<noteq> sep) (rev url))
       @ takeWhile (\<lambda>c. c \<noteq> CHR '';'') (rev (takeWhile (\<lambda>c. c \<noteq> sep) (rev url)))"

definition urlparse :: "string \<Rightarrow> error + parse_result" where
  "urlparse url =
     (let url1 = lstrip (map char_of [0..<33::nat]) url;
          url2 = filter (\<lambda>c. c \<notin> set [CHR 0x09, CHR 0x0D, CHR 0x0A]) url1;
          pre = takeWhile (\<lambda>c. c \<noteq> CHR '':'') url2;
          has_scheme = (pre \<noteq> [] \<and> length pre < length url2 \<and> is_ascii_alpha (hd url2)
                          \<and> (\<forall>c \<in> set pre. c \<in> set scheme_chars));
          sch = (if has_scheme then lower pre else []);
          url3 = (if has_scheme then drop (length pre + 1) url2 else url2);
          has_netloc = (take 2 url3 = [sep, sep]);
          nl = (if has_netloc then takeWhile (\<lambda>c. c \<notin> set ''/?#'') (drop 2 url3) else []);
          url4 = (if has_netloc then dropWhile (\<lambda>c. c \<notin> set ''/?#'') (drop 2 url3) else url3)
      in if (CHR ''['' \<in> set nl \<and> CHR '']'' \<notin> set nl) \<or> (CHR '']'' \<in> set nl \<and> CHR ''['' \<notin> set nl)
         then Inl (ValueError ''Invalid IPv6 URL'')
         else
           let url5 = takeWhile (\<lambda>c. c \<noteq> CHR ''#'') url4;
               url6 = takeWhile (\<lambda>c. c \<noteq> CHR ''?'') url5;
               url7 = (if sch \<in> set uses_params then splitparams url6 else url6)
           in Inr \<lparr>scheme = sch, netloc = nl, path = url7\<rparr>)"

text \<open>\<^verbatim>\<open>s.replace(old, new)\<close> for a non-empty \<open>old\<close>: the occurrences are replaced from
  the left and do not overlap. The counter is the number of characters of a replaced
  occurrence still to be passed over.\<close>

fun replace_from :: "string \<Rightarrow> string \<Rightarrow> nat \<Rightarrow> string \<Rightarrow> string" where
  "replace_from old new k [] = []"
| "replace_from old new (Suc k) (c # cs) = replace_from old new k cs"
| "replace_from old new 0 (c # cs) =
     (if prefix old (c # cs) then new @ replace_from old new (length old - 1) cs
      else c # replace_from old new 0 cs)"

definition replace :: "string \<Rightarrow> string \<Rightarrow> string \<Rightarrow> string" where
  "replace old new s = replace_from old new 0 s"

text \<open>\<^verbatim>\<open>int(s, 16)\<close>: surrounding white space, a sign, a \<^verbatim>\<open>0x\<close> prefix and single
  underscores between digits are accepted. \<open>digit_value\<close> is at least 16 for a character
  that is no hexadecimal digit.\<close>

definition is_space :: "char \<Rightarrow> bool" where
  "is_space c = (let n = (of_char c :: nat) in (9 \<le> n \<and> n \<le> 13) \<or> n = 32)"

definition digit_value :: "char \<Rightarrow> nat" where
  "digit_value c =
     (let n = (of_char c :: nat)
      in if 48 \<le> n \<and> n \<le> 57 then n - 48
         else if 97 \<le> n \<and> n \<le> 102 then n - 87
         else if 65 \<le> n \<and> n \<le> 70 then n - 55
         else 37)"

fun double_underscore :: "string \<Rightarrow> bool" where
  "double_underscore (a # b # cs) =
     ((a = CHR ''_'' \<and> b = CHR ''_'') \<or> double_underscore (b # cs))"
| "double_underscore _ = False"

definition int16 :: "string \<Rightarrow> error + int" where
  "int16 s =
     (let s1 = dropWhile is_space s;
          neg = (take 1 s1 = ''-'');
          s2 = (if take 1 s1 = ''+'' \<or> neg then drop 1 s1 else s1);
          s3 = (if take 2 s2 = ''0x'' \<or> take 2 s2 = ''0X''
                then (if take 1 (drop 2 s2) = ''_'' then drop 3 s2 else drop 2 s2)
                else s2);
          is_body = (\<lambda>c. digit_value c < 16 \<or> c = CHR ''_'');
          body = takeWhile is_body s3;
          rest = dropWhile is_body s3;
          ds = filter (\<lambda>c. c \<noteq> CHR ''_'') body
      in if body = [] \<or> hd body = CHR ''_'' \<or> last body = CHR ''_'' \<or> double_underscore body
            \<or> dropWhile is_space rest \<noteq> []
         then Inl (ValueError ''invalid literal for int() with base 16'')
         else Inr ((if neg then - 1 else 1)
                   * foldl (\<lambda>a c. 16 * a + int (digit_value c)) 0 ds))"

definition UUID :: "string \<Rightarrow> error + int" where
  "UUID hex =
     (let h1 = replace ''uuid:'' [] (replace ''urn:'' [] hex);
          h2 = replace ''-'' [] (strip ''{}'' h1)
      in if length h2 \<noteq> 32 then Inl (ValueError ''badly formed hexadecimal UUID string'')
         else (case int16 h2 of
                 Inl e \<Rightarrow> Inl e
               | Inr n \<Rightarrow>
                   if \<not> (0 \<le> n \<and> n < 2 ^ 128)
                   then Inl (ValueError ''int is out of range (need a 128-bit value)'')
                   else Inr n))"

subsection \<open>Notions of the specification\<close>

text \<open>The path of the URI stripped of separators at both ends with one separator appended,
  and its first segment: the text up to the first separator.\<close>

definition cleaned_path :: "string \<Rightarrow> string" where
  "cleaned_path p = strip [sep] p @ [sep]"

definition first_segment :: "string \<Rightarrow> string" where
  "first_segment p = hd (split sep (cleaned_path p))"


text \<open>The responses of the store in the order of a listing, as the specification describes
  it: the first call has no token, each further call has the token of the response before
  it and meets the client in the state the call before left it in.\<close>

fun page :: "('s, 'u, 'o) client \<Rightarrow> 'u \<Rightarrow> string \<Rightarrow> 's \<Rightarrow> nat \<Rightarrow> 'o list_response \<times> 's" where
  "page client pid pfx s 0 = client s pid pfx None"
| "page client pid pfx s (Suc n) =
     (case page client pid pfx s n of (r, s') \<Rightarrow> client s' pid pfx (next_page_token r))"

text \<open>A store with two pages of five objects, the first with a token; its state counts the
  calls. The converter of the example names the first nine objects \<^verbatim>\<open>a/dir/x\<close> and the
  last one \<^verbatim>\<open>/\<close>.\<close>

definition two_pages :: "(nat, 'u, nat) client" where
  "two_pages s pid pfx token =
     (case token of
        None \<Rightarrow> (\<lparr>objects = [0, 1, 2, 3, 4], next_page_token = Some ''token''\<rparr>, Suc s)
      | Some _ \<Rightarrow> (\<lparr>objects = [5, 6, 7, 8, 9], next_page_token = None\<rparr>, Suc s))"

definition example_converter :: "nat \<Rightarrow> string \<Rightarrow> file_info" where
  "example_converter obj root =
     (if obj = 9 then \<lparr>path = ''/'', is_dir = True, file_size = None\<rparr>
      else \<lparr>path = ''a/dir/x'', is_dir = False, file_size = Some (int obj)\<rparr>)"

text \<open>The path a listing compares parent directories with (the argument, or \<^verbatim>\<open>./\<close> for
  \<^verbatim>\<open>None\<close>) and the prefix it sends to the store.\<close>

definition requested_path :: "string option \<Rightarrow> string" where
  "requested_path path_arg = (case path_arg of None \<Rightarrow> ''./'' | Some q \<Rightarrow> q)"

definition listing_prefix :: "'u repository \<Rightarrow> string option \<Rightarrow> string" where
  "listing_prefix self path_arg =
     rstrip [sep] (datasets_path self (requested_path path_arg)) @ [sep]"

text \<open>A store with a single object on a single page and a converter that names every object
  \<^verbatim>\<open>.\<close>, the root marker.\<close>

definition one_page :: "(unit, 'u, unit) client" where
  "one_page s pid pfx token = (\<lparr>objects = [()], next_page_token = None\<rparr>, s)"

definition dot_converter :: "unit \<Rightarrow> string \<Rightarrow> file_info" where
  "dot_converter obj root = \<lparr>path = ''.'', is_dir = True, file_size = None\<rparr>"

text \<open>A path segment that normalisation leaves alone, and the stored root made of such
  segments: the separator, then each segment followed by a separator.\<close>

definition plain_segment :: "string \<Rightarrow> bool" where
  "plain_segment c = (c \<noteq> [] \<and> c \<noteq> ''.'' \<and> c \<noteq> ''..'' \<and> sep \<notin> set c)"

definition root_of_segments :: "string list \<Rightarrow> string" where
  "root_of_segments cs = [sep] @ concat (map (\<lambda>c. c @ [sep]) cs)"

text \<open>A path lies under a root when it is the normalised root or continues it below a
  separator.\<close>

definition lies_under :: "string \<Rightarrow> string \<Rightarrow> bool" where
  "lies_under root q =
     (let r = normpath root
      in q = r \<or> prefix (r @ [sep]) q \<or> (endswith r [sep] \<and> prefix r q))"

text \<open>The canonical textual form of a UUID: 36 characters, hyphens at the positions 8, 13,
  18 and 23 and hexadecimal digits elsewhere.\<close>

definition canonical_uuid :: "string \<Rightarrow> bool" where
  "canonical_uuid s =
     (length s = 36
      \<and> list_all (\<lambda>(i, c). if i \<in> set [8, 13, 18, 23] then c = CHR ''-'' else digit_value c < 16)
            (zip [0..<36] s))"

text \<open>A converter that names every object \<^verbatim>\<open>dir/a\<close>, a file in the directory \<^verbatim>\<open>dir\<close>.\<close>

definition dir_converter :: "unit \<Rightarrow> string \<Rightarrow> file_info" where
  "dir_converter obj root = \<lparr>path = ''dir/a'', is_dir = False, file_size = Some 1\<rparr>"

section \<open>Properties\<close>

subsection \<open>Splitting at the separator\<close>

lemma split_not_Nil: "split c s \<noteq> []"
  by (induction s) (auto split: list.splits)

lemma hd_split: "hd (split c s) = takeWhile (\<lambda>x. x \<noteq> c) s"
  using split_not_Nil[of c] by (induction s) (auto split: list.splits)

lemma takeWhile_sep_end:
  "takeWhile (\<lambda>x. x \<noteq> c) (s @ [c]) = takeWhile (\<lambda>x. x \<noteq> c) s"
  by (induction s) auto

lemma split1_sep_end:
  "split1 c (s @ [c]) = [takeWhile (\<lambda>x. x \<noteq> c) s, tl (dropWhile (\<lambda>x. x \<noteq> c) (s @ [c]))]"
proof -
  have "dropWhile (\<lambda>x. x \<noteq> c) (s @ [c]) \<noteq> []"
    by (induction s) auto
  moreover have "takeWhile (\<lambda>x. x \<noteq> c) (s @ [c]) = takeWhile (\<lambda>x. x \<noteq> c) s"
    by (rule takeWhile_sep_end)
  ultimately show ?thesis
    by (auto simp: split1_def split: list.splits)
qed

lemma dropWhile_sep_end:
  "dropWhile (\<lambda>x. x \<noteq> c) (s @ [c]) = c # tl (dropWhile (\<lambda>x. x \<noteq> c) (s @ [c]))"
  by (induction s) auto

lemma init_unfold:
  assumes "up uri = Inr p"
  shows "init up uu uri =
     (if parse_result.scheme p \<noteq> ''faculty-datasets'' then Inl (ValueError (not_faculty_uri uri))
      else if parse_result.netloc p \<noteq> [] then
        Inl (ValueError (netloc_reserved uri (parse_result.netloc p) (parse_result.path p)))
      else (case uu (first_segment (parse_result.path p)) of
              Inl e \<Rightarrow> Inl (ValueError (not_valid_uuid (first_segment (parse_result.path p)) uri))
            | Inr u \<Rightarrow> Inr \<lparr>project_id = u,
                 datasets_artifact_root =
                   drop (length (first_segment (parse_result.path p)))
                     (cleaned_path (parse_result.path p))\<rparr>))"
proof -
  let ?s = "strip [sep] (parse_result.path p)"
  have d: "drop (length (takeWhile (\<lambda>x. x \<noteq> sep) ?s)) (?s @ [sep])
             = sep # tl (dropWhile (\<lambda>x. x \<noteq> sep) (?s @ [sep]))"
  proof -
    have "takeWhile (\<lambda>x. x \<noteq> sep) (?s @ [sep]) = takeWhile (\<lambda>x. x \<noteq> sep) ?s"
      by (rule takeWhile_sep_end)
    then have "drop (length (takeWhile (\<lambda>x. x \<noteq> sep) ?s)) (?s @ [sep])
               = dropWhile (\<lambda>x. x \<noteq> sep) (?s @ [sep])"
      by (metis dropWhile_eq_drop)
    then show ?thesis using dropWhile_sep_end[of sep ?s] by simp
  qed
  have f: "first_segment (parse_result.path p) = takeWhile (\<lambda>x. x \<noteq> sep) ?s"
  proof -
    have "takeWhile (\<lambda>x. x \<noteq> sep) (?s @ [sep]) = takeWhile (\<lambda>x. x \<noteq> sep) ?s"
      by (rule takeWhile_sep_end)
    then show ?thesis by (simp add: first_segment_def cleaned_path_def hd_split)
  qed
  have sp: "split1 sep (?s @ [sep])
              = [first_segment (parse_result.path p),
                 tl (dropWhile (\<lambda>x. x \<noteq> sep) (?s @ [sep]))]"
    unfolding f by (rule split1_sep_end)
  have d': "sep # tl (dropWhile (\<lambda>x. x \<noteq> sep) (?s @ [sep]))
             = drop (length (first_segment (parse_result.path p)))
                 (cleaned_path (parse_result.path p))"
    unfolding f cleaned_path_def by (rule d[symmetric])
  have "init up uu uri =
     (if parse_result.scheme p \<noteq> ''faculty-datasets'' then Inl (ValueError (not_faculty_uri uri))
      else if parse_result.netloc p \<noteq> [] then
        Inl (ValueError (netloc_reserved uri (parse_result.netloc p) (parse_result.path p)))
      else (case uu (first_segment (parse_result.path p)) of
              Inl e \<Rightarrow> Inl (ValueError (not_valid_uuid (first_segment (parse_result.path p)) uri))
            | Inr u \<Rightarrow> Inr \<lparr>project_id = u,
                 datasets_artifact_root =
                   sep # tl (dropWhile (\<lambda>x. x \<noteq> sep) (?s @ [sep]))\<rparr>))"
    unfolding init_def assms by (simp add: sp Let_def split: sum.splits)
  then show ?thesis unfolding d'[symmetric] .
qed


lemma root_starts_with_sep:
  "drop (length (first_segment q)) (cleaned_path q) = sep # tl (drop (length (first_segment q)) (cleaned_path q))"
proof -
  let ?s = "strip [sep] q"
  have f: "first_segment q = takeWhile (\<lambda>x. x \<noteq> sep) (?s @ [sep])"
    by (simp add: first_segment_def cleaned_path_def hd_split)
  have "drop (length (first_segment q)) (cleaned_path q) = dropWhile (\<lambda>x. x \<noteq> sep) (?s @ [sep])"
    unfolding f cleaned_path_def by (metis dropWhile_eq_drop)
  then show ?thesis using dropWhile_sep_end[of sep ?s] by simp
qed

lemma first_segment_prefix:
  "first_segment q @ drop (length (first_segment q)) (cleaned_path q) = cleaned_path q"
proof -
  have "first_segment q = take (length (first_segment q)) (cleaned_path q)"
    by (simp add: first_segment_def hd_split takeWhile_eq_take[symmetric])
  then show ?thesis by (metis append_take_drop_id)
qed


subsection \<open>Construction\<close>

text \<open>
  C1, as the code has it. Let the URI parse into \<open>p\<close>. Construction succeeds exactly when
  the scheme of \<open>p\<close> is \<^verbatim>\<open>faculty-datasets\<close>, its netloc is empty and the first segment of
  its cleaned path is accepted by the constructor \<open>UUID\<close>, in canonical form or not. The
  checks are made in this order and the first that fails raises at once, each with its own
  message: a wrong scheme, then a non-empty netloc, then a first segment that \<open>UUID\<close>
  rejects. On success the project is the UUID of the first segment and the stored root is
  what follows that segment in the cleaned path, which starts with the separator.
\<close>

theorem construction_contract:
  assumes "up uri = Inr p"
  shows "((\<exists>r. init up uu uri = Inr r) \<longleftrightarrow>
            parse_result.scheme p = ''faculty-datasets'' \<and> parse_result.netloc p = []
            \<and> (\<exists>u. uu (first_segment (parse_result.path p)) = Inr u))
       \<and> (parse_result.scheme p \<noteq> ''faculty-datasets'' \<longrightarrow>
            init up uu uri = Inl (ValueError (not_faculty_uri uri)))
       \<and> (parse_result.scheme p = ''faculty-datasets'' \<and> parse_result.netloc p \<noteq> [] \<longrightarrow>
            init up uu uri =
              Inl (ValueError (netloc_reserved uri (parse_result.netloc p) (parse_result.path p))))
       \<and> (parse_result.scheme p = ''faculty-datasets'' \<and> parse_result.netloc p = []
            \<and> (\<exists>e. uu (first_segment (parse_result.path p)) = Inl e) \<longrightarrow>
            init up uu uri =
              Inl (ValueError (not_valid_uuid (first_segment (parse_result.path p)) uri)))
       \<and> (\<forall>r. init up uu uri = Inr r \<longrightarrow>
            uu (first_segment (parse_result.path p)) = Inr (project_id r)
            \<and> cleaned_path (parse_result.path p)
                = first_segment (parse_result.path p) @ datasets_artifact_root r
            \<and> (\<exists>rest. datasets_artifact_root r = [sep] @ rest))"
proof -
  note u = init_unfold[of up uri p uu, OF assms]
  have 1: "(\<exists>r. init up uu uri = Inr r) \<longleftrightarrow>
            parse_result.scheme p = ''faculty-datasets'' \<and> parse_result.netloc p = []
            \<and> (\<exists>u. uu (first_segment (parse_result.path p)) = Inr u)"
    unfolding u by (auto split: sum.splits)
  have 2: "parse_result.scheme p \<noteq> ''faculty-datasets'' \<longrightarrow>
            init up uu uri = Inl (ValueError (not_faculty_uri uri))"
    unfolding u by simp
  have 3: "parse_result.scheme p = ''faculty-datasets'' \<and> parse_result.netloc p \<noteq> [] \<longrightarrow>
            init up uu uri =
              Inl (ValueError (netloc_reserved uri (parse_result.netloc p) (parse_result.path p)))"
    unfolding u by simp
  have 4: "parse_result.scheme p = ''faculty-datasets'' \<and> parse_result.netloc p = []
            \<and> (\<exists>e. uu (first_segment (parse_result.path p)) = Inl e) \<longrightarrow>
            init up uu uri =
              Inl (ValueError (not_valid_uuid (first_segment (parse_result.path p)) uri))"
    unfolding u by auto
  have 5: "\<forall>r. init up uu uri = Inr r \<longrightarrow>
            uu (first_segment (parse_result.path p)) = Inr (project_id r)
            \<and> cleaned_path (parse_result.path p)
                = first_segment (parse_result.path p) @ datasets_artifact_root r
            \<and> (\<exists>rest. datasets_artifact_root r = [sep] @ rest)"
  proof (intro allI impI)
    fix r assume r: "init up uu uri = Inr r"
    from r[unfolded u] obtain v where
      v: "uu (first_segment (parse_result.path p)) = Inr v"
      and rv: "r = \<lparr>project_id = v, datasets_artifact_root =
                  drop (length (first_segment (parse_result.path p)))
                    (cleaned_path (parse_result.path p))\<rparr>"
      by (auto split: if_splits sum.splits)
    show "uu (first_segment (parse_result.path p)) = Inr (project_id r)
            \<and> cleaned_path (parse_result.path p)
                = first_segment (parse_result.path p) @ datasets_artifact_root r
            \<and> (\<exists>rest. datasets_artifact_root r = [sep] @ rest)"
      using v rv first_segment_prefix[of "parse_result.path p"]
        root_starts_with_sep[of "parse_result.path p"]
      by auto
  qed
  from 1 2 3 4 5 show ?thesis by blast
qed


theorem construction_contract_witness:
  "(\<exists>r. init urlparse UUID
          ''faculty-datasets:12345678-1234-5678-1234-567812345678/path/in/datasets'' = Inr r)
   \<and> init urlparse UUID ''no/schema''
       = Inl (ValueError ''Not a Faculty datasets URI: no/schema'')
   \<and> init urlparse UUID ''faculty-datasets://host/path''
       = Inl (ValueError (netloc_reserved ''faculty-datasets://host/path'' ''host'' ''/path''))
   \<and> init urlparse UUID ''faculty-datasets:invalid-uri''
       = Inl (ValueError
           ''invalid-uri in given URI faculty-datasets:invalid-uri is not a valid UUID'')"
proof -
  have p1: "urlparse ''faculty-datasets:12345678-1234-5678-1234-567812345678/path/in/datasets''
              = Inr \<lparr>scheme = ''faculty-datasets'', netloc = [],
                     path = ''12345678-1234-5678-1234-567812345678/path/in/datasets''\<rparr>"
    by code_simp
  have u1: "UUID (first_segment ''12345678-1234-5678-1234-567812345678/path/in/datasets'')
              = Inr 24197857161011715162171839636988778104"
    by code_simp
  have p2: "urlparse ''no/schema'' = Inr \<lparr>scheme = [], netloc = [], path = ''no/schema''\<rparr>"
    by code_simp
  have p3: "urlparse ''faculty-datasets://host/path''
              = Inr \<lparr>scheme = ''faculty-datasets'', netloc = ''host'', path = ''/path''\<rparr>"
    by code_simp
  have p4: "urlparse ''faculty-datasets:invalid-uri''
              = Inr \<lparr>scheme = ''faculty-datasets'', netloc = [], path = ''invalid-uri''\<rparr>"
    by code_simp
  have f4: "first_segment ''invalid-uri'' = ''invalid-uri''"
    by code_simp
  have u4: "UUID ''invalid-uri'' = Inl (ValueError ''badly formed hexadecimal UUID string'')"
    by code_simp
  have a: "\<exists>r. init urlparse UUID
          ''faculty-datasets:12345678-1234-5678-1234-567812345678/path/in/datasets'' = Inr r"
    using construction_contract[of urlparse _ _ UUID, OF p1] u1 by simp
  have b: "init urlparse UUID ''no/schema''
             = Inl (ValueError ''Not a Faculty datasets URI: no/schema'')"
    using construction_contract[of urlparse _ _ UUID, OF p2] by (simp add: not_faculty_uri_def)
  have c: "init urlparse UUID ''faculty-datasets://host/path''
       = Inl (ValueError (netloc_reserved ''faculty-datasets://host/path'' ''host'' ''/path''))"
    using construction_contract[of urlparse _ _ UUID, OF p3] by simp
  have d: "init urlparse UUID ''faculty-datasets:invalid-uri''
       = Inl (ValueError
           ''invalid-uri in given URI faculty-datasets:invalid-uri is not a valid UUID'')"
    using construction_contract[of urlparse _ _ UUID, OF p4] f4 u4
    by (simp add: not_valid_uuid_def)
  from a b c d show ?thesis by blast
qed


text \<open>
  C1, as the specification states it, fails: the first segment need not be a canonical UUID.
  \<^verbatim>\<open>uuid.UUID\<close> accepts 32 hexadecimal digits without hyphens, and construction succeeds
  with them.
\<close>

theorem construction_contract_counterexample:
  "init urlparse UUID ''faculty-datasets:12345678123456781234567812345678/path/in/datasets''
     = Inr \<lparr>project_id = 24197857161011715162171839636988778104,
            datasets_artifact_root = ''/path/in/datasets/''\<rparr>
   \<and> first_segment ''12345678123456781234567812345678/path/in/datasets''
       = ''12345678123456781234567812345678''
   \<and> \<not> canonical_uuid ''12345678123456781234567812345678''
   \<and> canonical_uuid ''12345678-1234-5678-1234-567812345678''"
proof (intro conjI)
  show "init urlparse UUID ''faculty-datasets:12345678123456781234567812345678/path/in/datasets''
     = Inr \<lparr>project_id = 24197857161011715162171839636988778104,
            datasets_artifact_root = ''/path/in/datasets/''\<rparr>"
    by code_simp
  show "first_segment ''12345678123456781234567812345678/path/in/datasets''
       = ''12345678123456781234567812345678''"
    by code_simp
  show "\<not> canonical_uuid ''12345678123456781234567812345678''"
    by (simp add: canonical_uuid_def)
  show "canonical_uuid ''12345678-1234-5678-1234-567812345678''"
    by code_simp
qed

subsection \<open>The stored root\<close>

lemma strip_no_sep_ends:
  assumes "s \<noteq> []" "hd s \<noteq> sep" "last s \<noteq> sep"
  shows "strip [sep] s = s"
proof -
  from assms obtain a t where s: "s = a # t" and a: "a \<noteq> sep" by (cases s) auto
  have l: "lstrip [sep] s = s" using s a by (simp add: lstrip_def)
  from assms obtain b t' where s': "rev s = b # t'" and b: "b \<noteq> sep"
    by (cases "rev s") (auto simp: last_rev[symmetric] simp del: last_rev)
  have "rev (dropWhile (\<lambda>c. c \<in> set [sep]) (rev s)) = rev (rev s)"
    unfolding s' using b by simp
  then have "rstrip [sep] s = s" by (simp add: rstrip_def)
  with l show ?thesis by (simp add: strip_def)
qed

lemma rstrip_snoc_sep: "rstrip [sep] (s @ [sep]) = rstrip [sep] s"
  by (simp add: rstrip_def)

lemma cleaned_path_plain:
  assumes "u \<noteq> []" "sep \<notin> set u"
  shows "cleaned_path (u @ ''/path/in/datasets'') = u @ ''/path/in/datasets/''"
    and "cleaned_path (u @ ''/path/in/datasets/'') = u @ ''/path/in/datasets/''"
proof -
  from assms obtain a t where u: "u = a # t" and a: "a \<noteq> sep" by (cases u) auto
  have 1: "strip [sep] (u @ ''/path/in/datasets'') = u @ ''/path/in/datasets''"
    by (rule strip_no_sep_ends) (use u a in auto)
  have "lstrip [sep] (u @ ''/path/in/datasets/'') = u @ ''/path/in/datasets/''"
    using u a by (simp add: lstrip_def)
  then have "strip [sep] (u @ ''/path/in/datasets/'') = rstrip [sep] ((u @ ''/path/in/datasets'') @ [sep])"
    by (simp add: strip_def)
  also have "\<dots> = rstrip [sep] (u @ ''/path/in/datasets'')" by (rule rstrip_snoc_sep)
  also have "\<dots> = u @ ''/path/in/datasets''"
    using 1 u a by (simp add: strip_def lstrip_def)
  finally have 2: "strip [sep] (u @ ''/path/in/datasets/'') = u @ ''/path/in/datasets''" .
  show "cleaned_path (u @ ''/path/in/datasets'') = u @ ''/path/in/datasets/''"
    by (simp add: cleaned_path_def 1)
  show "cleaned_path (u @ ''/path/in/datasets/'') = u @ ''/path/in/datasets/''"
    by (simp add: cleaned_path_def 2)
qed

lemma takeWhile_no_sep: "c \<notin> set u \<Longrightarrow> takeWhile (\<lambda>x. x \<noteq> c) (u @ c # rest) = u"
  by (induction u) auto

lemma first_segment_plain:
  assumes "sep \<notin> set u" "cleaned_path q = u @ sep # rest"
  shows "first_segment q = u" "drop (length (first_segment q)) (cleaned_path q) = sep # rest"
proof -
  show "first_segment q = u"
    using assms by (simp add: first_segment_def hd_split takeWhile_no_sep)
  then show "drop (length (first_segment q)) (cleaned_path q) = sep # rest"
    using assms by simp
qed


lemma init_root_starts_with_sep:
  assumes "init up uu uri = Inr r"
  shows "startswith (datasets_artifact_root r) [sep]"
proof (cases "up uri")
  case (Inl e)
  with assms show ?thesis by (simp add: init_def)
next
  case (Inr p)
  from assms[unfolded init_unfold[of up uri p uu, OF Inr]]
  have "datasets_artifact_root r =
          drop (length (first_segment (parse_result.path p))) (cleaned_path (parse_result.path p))"
    by (auto split: if_splits sum.splits)
  with root_starts_with_sep[of "parse_result.path p"]
  obtain rest where "datasets_artifact_root r = sep # rest" by metis
  then show ?thesis by (simp add: startswith_def)
qed

text \<open>
  C5. With the same UUID segment \<open>u\<close>, the root spelled \<^verbatim>\<open>path/in/datasets\<close> and the root
  spelled \<^verbatim>\<open>path/in/datasets/\<close> give the same stored root \<^verbatim>\<open>/path/in/datasets/\<close>; and
  the stored root of every accepted URI starts with the separator.
\<close>

theorem root_spelling:
  "(uu u = Inr pid \<and> u \<noteq> [] \<and> sep \<notin> set u
      \<and> up uri1 = Inr \<lparr>scheme = ''faculty-datasets'', netloc = [],
                       path = u @ ''/path/in/datasets''\<rparr>
      \<and> up uri2 = Inr \<lparr>scheme = ''faculty-datasets'', netloc = [],
                       path = u @ ''/path/in/datasets/''\<rparr>
    \<longrightarrow> init up uu uri1
          = Inr \<lparr>project_id = pid, datasets_artifact_root = ''/path/in/datasets/''\<rparr>
      \<and> init up uu uri2
          = Inr \<lparr>project_id = pid, datasets_artifact_root = ''/path/in/datasets/''\<rparr>)
   \<and> (\<forall>r. init up uu uri = Inr r \<longrightarrow> startswith (datasets_artifact_root r) [sep])"
proof (intro conjI impI allI)
  fix r assume "init up uu uri = Inr r"
  then show "startswith (datasets_artifact_root r) [sep]"
    by (rule init_root_starts_with_sep)
next
  assume a: "uu u = Inr pid \<and> u \<noteq> [] \<and> sep \<notin> set u
      \<and> up uri1 = Inr \<lparr>scheme = ''faculty-datasets'', netloc = [],
                       path = u @ ''/path/in/datasets''\<rparr>
      \<and> up uri2 = Inr \<lparr>scheme = ''faculty-datasets'', netloc = [],
                       path = u @ ''/path/in/datasets/''\<rparr>"
  then have u: "u \<noteq> []" "sep \<notin> set u" and pid: "uu u = Inr pid"
    and p1: "up uri1 = Inr \<lparr>scheme = ''faculty-datasets'', netloc = [],
                       path = u @ ''/path/in/datasets''\<rparr>"
    and p2: "up uri2 = Inr \<lparr>scheme = ''faculty-datasets'', netloc = [],
                       path = u @ ''/path/in/datasets/''\<rparr>"
    by simp_all
  have c1: "cleaned_path (u @ ''/path/in/datasets'') = u @ sep # ''path/in/datasets/''"
    using cleaned_path_plain(1)[OF u] by simp
  have c2: "cleaned_path (u @ ''/path/in/datasets/'') = u @ sep # ''path/in/datasets/''"
    using cleaned_path_plain(2)[OF u] by simp
  show "init up uu uri1
          = Inr \<lparr>project_id = pid, datasets_artifact_root = ''/path/in/datasets/''\<rparr>"
    unfolding init_unfold[of up uri1 _ uu, OF p1]
    using first_segment_plain[OF u(2) c1] pid by simp
  show "init up uu uri2
          = Inr \<lparr>project_id = pid, datasets_artifact_root = ''/path/in/datasets/''\<rparr>"
    unfolding init_unfold[of up uri2 _ uu, OF p2]
    using first_segment_plain[OF u(2) c2] pid by simp
qed

theorem root_spelling_witness:
  "init urlparse UUID ''faculty-datasets:12345678-1234-5678-1234-567812345678/path/in/datasets''
     = Inr \<lparr>project_id = 24197857161011715162171839636988778104,
            datasets_artifact_root = ''/path/in/datasets/''\<rparr>
   \<and> init urlparse UUID ''faculty-datasets:12345678-1234-5678-1234-567812345678/path/in/datasets/''
     = Inr \<lparr>project_id = 24197857161011715162171839636988778104,
            datasets_artifact_root = ''/path/in/datasets/''\<rparr>
   \<and> startswith ''/path/in/datasets/'' [sep]"
proof -
  have p1: "urlparse ''faculty-datasets:12345678-1234-5678-1234-567812345678/path/in/datasets''
              = Inr \<lparr>scheme = ''faculty-datasets'', netloc = [],
                     path = ''12345678-1234-5678-1234-567812345678'' @ ''/path/in/datasets''\<rparr>"
    by code_simp
  have p2: "urlparse ''faculty-datasets:12345678-1234-5678-1234-567812345678/path/in/datasets/''
              = Inr \<lparr>scheme = ''faculty-datasets'', netloc = [],
                     path = ''12345678-1234-5678-1234-567812345678'' @ ''/path/in/datasets/''\<rparr>"
    by code_simp
  have u: "UUID ''12345678-1234-5678-1234-567812345678''
              = Inr 24197857161011715162171839636988778104"
    by code_simp
  have n: "''12345678-1234-5678-1234-567812345678'' \<noteq> []
           \<and> sep \<notin> set ''12345678-1234-5678-1234-567812345678''"
    by simp
  note t = root_spelling[of UUID "''12345678-1234-5678-1234-567812345678''"
      "24197857161011715162171839636988778104" urlparse
      "''faculty-datasets:12345678-1234-5678-1234-567812345678/path/in/datasets''"
      "''faculty-datasets:12345678-1234-5678-1234-567812345678/path/in/datasets/''"
      "''faculty-datasets:12345678-1234-5678-1234-567812345678/path/in/datasets''"]
  from t[THEN conjunct1] u n p1 p2
  have a: "init urlparse UUID ''faculty-datasets:12345678-1234-5678-1234-567812345678/path/in/datasets''
     = Inr \<lparr>project_id = 24197857161011715162171839636988778104,
            datasets_artifact_root = ''/path/in/datasets/''\<rparr>
   \<and> init urlparse UUID ''faculty-datasets:12345678-1234-5678-1234-567812345678/path/in/datasets/''
     = Inr \<lparr>project_id = 24197857161011715162171839636988778104,
            datasets_artifact_root = ''/path/in/datasets/''\<rparr>"
    by blast
  from t[THEN conjunct2] a
  have "startswith (datasets_artifact_root \<lparr>project_id = 24197857161011715162171839636988778104::int,
            datasets_artifact_root = ''/path/in/datasets/''\<rparr>) [sep]"
    by blast
  then have "startswith ''/path/in/datasets/'' [sep]" by simp
  with a show ?thesis by blast
qed

text \<open>
  C8. A URI with the right scheme and a non-empty netloc is rejected, and the message ends
  with the suggested URI in quotes: \<^verbatim>\<open>faculty-datasets:\<close> followed by the rejected netloc
  and the path. For \<^verbatim>\<open>faculty-datasets://<uuid>/path\<close> the suggestion is
  \<^verbatim>\<open>faculty-datasets:<uuid>/path\<close>.
\<close>

theorem netloc_suggestion:
  "(up uri = Inr p \<and> parse_result.scheme p = ''faculty-datasets'' \<and> parse_result.netloc p \<noteq> []
      \<longrightarrow> init up uu uri =
            Inl (ValueError (''Invalid URI '' @ uri @ ''. Netloc is reserved. Did you mean ''
                   @ [CHR 0x27] @ (''faculty-datasets:'' @ parse_result.netloc p @ parse_result.path p)
                   @ [CHR 0x27])))
   \<and> init urlparse UUID ''faculty-datasets://12345678-1234-5678-1234-567812345678/path''
       = Inl (ValueError
           (''Invalid URI faculty-datasets://12345678-1234-5678-1234-567812345678/path''
              @ ''. Netloc is reserved. Did you mean ''
              @ [CHR 0x27] @ ''faculty-datasets:12345678-1234-5678-1234-567812345678/path''
              @ [CHR 0x27]))"
proof (intro conjI impI)
  assume "up uri = Inr p \<and> parse_result.scheme p = ''faculty-datasets'' \<and> parse_result.netloc p \<noteq> []"
  then have p: "up uri = Inr p" and s: "parse_result.scheme p = ''faculty-datasets''"
    and n: "parse_result.netloc p \<noteq> []" by simp_all
  show "init up uu uri =
            Inl (ValueError (''Invalid URI '' @ uri @ ''. Netloc is reserved. Did you mean ''
                   @ [CHR 0x27] @ (''faculty-datasets:'' @ parse_result.netloc p @ parse_result.path p)
                   @ [CHR 0x27]))"
    unfolding init_unfold[of up uri p uu, OF p] using s n by (simp add: netloc_reserved_def)
next
  have p: "urlparse ''faculty-datasets://12345678-1234-5678-1234-567812345678/path''
            = Inr \<lparr>scheme = ''faculty-datasets'',
                   netloc = ''12345678-1234-5678-1234-567812345678'', path = ''/path''\<rparr>"
    by code_simp
  show "init urlparse UUID ''faculty-datasets://12345678-1234-5678-1234-567812345678/path''
       = Inl (ValueError
           (''Invalid URI faculty-datasets://12345678-1234-5678-1234-567812345678/path''
              @ ''. Netloc is reserved. Did you mean ''
              @ [CHR 0x27] @ ''faculty-datasets:12345678-1234-5678-1234-567812345678/path''
              @ [CHR 0x27]))"
    unfolding init_unfold[of urlparse _ _ UUID, OF p] by (simp add: netloc_reserved_def)
qed

theorem netloc_suggestion_witness:
  "init urlparse UUID ''faculty-datasets://host/a/b''
     = Inl (ValueError (''Invalid URI faculty-datasets://host/a/b. Netloc is reserved. Did you mean ''
                   @ [CHR 0x27] @ ''faculty-datasets:host/a/b'' @ [CHR 0x27]))"
proof -
  have p: "urlparse ''faculty-datasets://host/a/b''
            = Inr \<lparr>scheme = ''faculty-datasets'', netloc = ''host'', path = ''/a/b''\<rparr>"
    by code_simp
  from netloc_suggestion[of urlparse "''faculty-datasets://host/a/b''"
         "\<lparr>scheme = ''faculty-datasets'', netloc = ''host'', path = ''/a/b''\<rparr>" UUID,
         THEN conjunct1] p
  show ?thesis by simp
qed


subsection \<open>Listing\<close>

lemma list_artifacts_unfold:
  "list_artifacts client conv self path_arg recursive s =
     map_option (\<lambda>(objs, calls, s').
        (filter (keep (requested_path path_arg) recursive)
           (map (\<lambda>obj. conv obj (datasets_artifact_root self)) objs), calls, s'))
       (list_objects client (project_id self) (listing_prefix self path_arg) s)"
  by (simp add: list_artifacts_def requested_path_def listing_prefix_def Let_def
           split: option.splits)

lemma list_loop_None:
  "next_page_token r = None \<Longrightarrow> list_loop client pid pfx r objs calls s = Some (objs, calls, s)"
  by (subst list_loop.simps) simp

lemma list_loop_Some:
  "next_page_token r = Some t \<Longrightarrow>
   list_loop client pid pfx r objs calls s =
     (case client s pid pfx (Some t) of
        (r', s') \<Rightarrow>
          list_loop client pid pfx r' (objs @ objects r') (calls @ [ListCall pid pfx (Some t)]) s')"
  by (subst list_loop.simps) simp

lemma page_Suc:
  "page client pid pfx s (Suc k) =
     client (snd (page client pid pfx s k)) pid pfx
       (next_page_token (fst (page client pid pfx s k)))"
  by (simp add: case_prod_unfold)

lemma list_loop_pages:
  assumes "\<forall>k. m \<le> k \<and> k < n \<longrightarrow> next_page_token (fst (page client pid pfx s k)) \<noteq> None"
    and "next_page_token (fst (page client pid pfx s n)) = None"
    and "m \<le> n"
  shows "list_loop client pid pfx (fst (page client pid pfx s m)) objs calls
           (snd (page client pid pfx s m))
         = Some (objs @ concat (map (\<lambda>k. objects (fst (page client pid pfx s k))) [Suc m..<Suc n]),
                 calls @ map (\<lambda>k. ListCall pid pfx (next_page_token (fst (page client pid pfx s k))))
                           [m..<n],
                 snd (page client pid pfx s n))"
  using assms
proof (induction "n - m" arbitrary: m objs calls)
  case 0
  then have "m = n" by simp
  with 0 show ?case by (subst list_loop.simps) simp
next
  case (Suc d)
  then have mn: "m < n" and d: "d = n - Suc m" by simp_all
  from Suc.prems(1) mn obtain t where
    t: "next_page_token (fst (page client pid pfx s m)) = Some t" by auto
  have step: "client (snd (page client pid pfx s m)) pid pfx (Some t)
               = page client pid pfx s (Suc m)"
    by (simp add: page_Suc t del: page.simps)
  have ih: "list_loop client pid pfx (fst (page client pid pfx s (Suc m)))
              (objs @ objects (fst (page client pid pfx s (Suc m))))
              (calls @ [ListCall pid pfx (Some t)]) (snd (page client pid pfx s (Suc m)))
         = Some ((objs @ objects (fst (page client pid pfx s (Suc m))))
                   @ concat (map (\<lambda>k. objects (fst (page client pid pfx s k))) [Suc (Suc m)..<Suc n]),
                 (calls @ [ListCall pid pfx (Some t)])
                   @ map (\<lambda>k. ListCall pid pfx (next_page_token (fst (page client pid pfx s k))))
                           [Suc m..<n],
                 snd (page client pid pfx s n))"
    by (rule Suc.hyps(1)[OF d]) (use Suc.prems mn in auto)
  have u1: "[Suc m..<Suc n] = Suc m # [Suc (Suc m)..<Suc n]"
    using mn by (simp add: upt_conv_Cons)
  have u2: "[m..<n] = m # [Suc m..<n]"
    using mn by (simp add: upt_conv_Cons)
  show ?case
    apply (subst list_loop.simps)
    apply (simp only: t option.case step[unfolded prod.collapse[symmetric]])
    apply (simp only: case_prod_unfold ih u1 u2)
    apply (simp add: t del: page.simps)
    done
qed

lemma list_loop_returns:
  assumes "list_loop client pid pfx resp objs calls st = Some y"
    and "resp = fst (page client pid pfx s m)" and "st = snd (page client pid pfx s m)"
  shows "\<exists>n. next_page_token (fst (page client pid pfx s n)) = None"
  using assms
proof (induction client pid pfx resp objs calls st y arbitrary: m
        rule: list_loop.raw_induct[rotated 1, consumes 1])
  case (1 loop client pid pfx resp objs calls st y)
  show ?case
  proof (cases "next_page_token resp")
    case None
    with "1.prems" show ?thesis by auto
  next
    case (Some t)
    have step: "client st pid pfx (Some t) = page client pid pfx s (Suc m)"
      using "1.prems" Some by (simp add: page_Suc del: page.simps)
    from "1.hyps" have
      "loop client pid pfx (fst (page client pid pfx s (Suc m)))
         (objs @ objects (fst (page client pid pfx s (Suc m))))
         (calls @ [ListCall pid pfx (Some t)]) (snd (page client pid pfx s (Suc m))) = Some y"
      by (simp add: Some step case_prod_unfold del: page.simps)
    then show ?thesis
      by (rule "1.IH"[where m = "Suc m"]) (rule refl)+
  qed
qed

lemma list_objects_None:
  assumes "\<forall>k. next_page_token (fst (page client pid pfx s k)) \<noteq> None"
  shows "list_objects client pid pfx s = None"
proof (rule ccontr)
  assume "list_objects client pid pfx s \<noteq> None"
  then obtain y where
    "list_loop client pid pfx (fst (page client pid pfx s 0))
       (objects (fst (page client pid pfx s 0))) [ListCall pid pfx None]
       (snd (page client pid pfx s 0)) = Some y"
    by (auto simp: list_objects_def case_prod_unfold)
  from list_loop_returns[OF this, of s 0] assms show False by simp
qed

lemma list_objects_pages:
  assumes "\<forall>k<n. next_page_token (fst (page client pid pfx s k)) \<noteq> None"
    and "next_page_token (fst (page client pid pfx s n)) = None"
  shows "list_objects client pid pfx s
     = Some (concat (map (\<lambda>k. objects (fst (page client pid pfx s k))) [0..<Suc n]),
             ListCall pid pfx None
               # map (\<lambda>k. ListCall pid pfx (next_page_token (fst (page client pid pfx s k))))
                   [0..<n],
             snd (page client pid pfx s n))"
proof -
  have u: "[0..<Suc n] = 0 # [Suc 0..<Suc n]" by (simp add: upt_conv_Cons)
  have "list_objects client pid pfx s
     = list_loop client pid pfx (fst (page client pid pfx s 0))
         (objects (fst (page client pid pfx s 0))) [ListCall pid pfx None]
         (snd (page client pid pfx s 0))"
    by (simp add: list_objects_def case_prod_unfold)
  also have "\<dots> = Some (objects (fst (page client pid pfx s 0))
                 @ concat (map (\<lambda>k. objects (fst (page client pid pfx s k))) [Suc 0..<Suc n]),
             [ListCall pid pfx None]
               @ map (\<lambda>k. ListCall pid pfx (next_page_token (fst (page client pid pfx s k))))
                   [0..<n],
             snd (page client pid pfx s n))"
    by (rule list_loop_pages) (use assms in auto)
  finally show ?thesis unfolding u by (simp del: page.simps upt_Suc)
qed


text \<open>
  C3. Number the responses of the store from 0, the first call having no token and each
  further call the token of the response before it. If response \<open>n\<close> is the first whose
  token is null, the listing makes exactly the calls for the responses 0 to \<open>n\<close>, in this
  order, each further call with the project, the prefix and the token of the response before
  it, and accumulates the objects of these responses in arrival order. If no response has a
  null token the loop does not return. For two pages of five objects, the first with a token
  and the second without, there are exactly two calls and the ten objects are accumulated
  before they are converted and filtered.
\<close>

theorem pagination:
  "((\<forall>k<n. next_page_token (fst (page client pid pfx s k)) \<noteq> None)
      \<and> next_page_token (fst (page client pid pfx s n)) = None
     \<longrightarrow> list_objects client pid pfx s
          = Some (concat (map (\<lambda>k. objects (fst (page client pid pfx s k))) [0..<Suc n]),
                  ListCall pid pfx None
                    # map (\<lambda>k. ListCall pid pfx (next_page_token (fst (page client pid pfx s k))))
                        [0..<n],
                  snd (page client pid pfx s n)))
   \<and> ((\<forall>k. next_page_token (fst (page client pid pfx s k)) \<noteq> None)
     \<longrightarrow> list_objects client pid pfx s = None)
   \<and> (client s (project_id self) (listing_prefix self path_arg) None
         = (\<lparr>objects = os1, next_page_token = Some t\<rparr>, s1)
      \<and> client s1 (project_id self) (listing_prefix self path_arg) (Some t)
         = (\<lparr>objects = os2, next_page_token = None\<rparr>, s2)
      \<and> length os1 = 5 \<and> length os2 = 5
     \<longrightarrow> list_objects client (project_id self) (listing_prefix self path_arg) s
          = Some (os1 @ os2,
                  [ListCall (project_id self) (listing_prefix self path_arg) None,
                   ListCall (project_id self) (listing_prefix self path_arg) (Some t)], s2)
        \<and> length (os1 @ os2) = 10
        \<and> list_artifacts client conv self path_arg recursive s
          = Some (filter (keep (requested_path path_arg) recursive)
                    (map (\<lambda>obj. conv obj (datasets_artifact_root self)) (os1 @ os2)),
                  [ListCall (project_id self) (listing_prefix self path_arg) None,
                   ListCall (project_id self) (listing_prefix self path_arg) (Some t)], s2))"
proof (intro conjI impI)
  assume "(\<forall>k<n. next_page_token (fst (page client pid pfx s k)) \<noteq> None)
      \<and> next_page_token (fst (page client pid pfx s n)) = None"
  then show "list_objects client pid pfx s
          = Some (concat (map (\<lambda>k. objects (fst (page client pid pfx s k))) [0..<Suc n]),
                  ListCall pid pfx None
                    # map (\<lambda>k. ListCall pid pfx (next_page_token (fst (page client pid pfx s k))))
                        [0..<n],
                  snd (page client pid pfx s n))"
    using list_objects_pages[of n client pid pfx s] by blast
next
  assume "\<forall>k. next_page_token (fst (page client pid pfx s k)) \<noteq> None"
  then show "list_objects client pid pfx s = None"
    by (rule list_objects_None)
next
  assume a: "client s (project_id self) (listing_prefix self path_arg) None
         = (\<lparr>objects = os1, next_page_token = Some t\<rparr>, s1)
      \<and> client s1 (project_id self) (listing_prefix self path_arg) (Some t)
         = (\<lparr>objects = os2, next_page_token = None\<rparr>, s2)
      \<and> length os1 = 5 \<and> length os2 = 5"
  then show l: "list_objects client (project_id self) (listing_prefix self path_arg) s
          = Some (os1 @ os2,
                  [ListCall (project_id self) (listing_prefix self path_arg) None,
                   ListCall (project_id self) (listing_prefix self path_arg) (Some t)], s2)"
    by (simp add: list_objects_def list_loop_None list_loop_Some)
  from a show "length (os1 @ os2) = 10" by simp
  from l show "list_artifacts client conv self path_arg recursive s
          = Some (filter (keep (requested_path path_arg) recursive)
                    (map (\<lambda>obj. conv obj (datasets_artifact_root self)) (os1 @ os2)),
                  [ListCall (project_id self) (listing_prefix self path_arg) None,
                   ListCall (project_id self) (listing_prefix self path_arg) (Some t)], s2)"
    by (simp add: list_artifacts_unfold)
qed

theorem pagination_witness:
  "list_objects two_pages (7::nat) ''/path/in/datasets/a/dir/'' 0
     = Some ([0, 1, 2, 3, 4, 5, 6, 7, 8, 9],
             [ListCall 7 ''/path/in/datasets/a/dir/'' None,
              ListCall 7 ''/path/in/datasets/a/dir/'' (Some ''token'')], 2)"
proof -
  have p0: "page two_pages (7::nat) ''/path/in/datasets/a/dir/'' 0 0
              = (\<lparr>objects = [0, 1, 2, 3, 4], next_page_token = Some ''token''\<rparr>, 1)"
    by (simp add: two_pages_def)
  have p1: "page two_pages (7::nat) ''/path/in/datasets/a/dir/'' 0 (Suc 0)
              = (\<lparr>objects = [5, 6, 7, 8, 9], next_page_token = None\<rparr>, 2)"
    by (simp add: two_pages_def)
  have h: "(\<forall>k<Suc 0. next_page_token (fst (page two_pages (7::nat) ''/path/in/datasets/a/dir/'' 0 k)) \<noteq> None)
      \<and> next_page_token (fst (page two_pages (7::nat) ''/path/in/datasets/a/dir/'' 0 (Suc 0))) = None"
    using p0 p1 by simp
  from pagination[of "Suc 0" two_pages 7 "''/path/in/datasets/a/dir/''" 0, THEN conjunct1, rule_format, OF h]
  show ?thesis
    unfolding upt_rec[of 0] upt_rec[of "Suc 0"] by (simp add: p0 p1 del: page.simps)
qed


lemma keep_iff:
  "keep p recursive i \<longleftrightarrow>
     file_info.path i \<noteq> ''/'' \<and> file_info.path i \<noteq> ''.''
     \<and> (recursive \<or> dirname (file_info.path i) = [] \<or> dirname (file_info.path i) = p)"
  by (auto simp: keep_def)

text \<open>
  C2. Whatever the objects of the store and the path argument, the listing returns the
  converted entries, in their order, without those whose display path is \<^verbatim>\<open>/\<close> or \<^verbatim>\<open>.\<close>
  and, when \<open>recursive\<close> is false, without those whose parent directory is neither empty
  nor the path argument as the caller wrote it (\<^verbatim>\<open>./\<close> standing for \<^verbatim>\<open>None\<close>). When
  \<open>recursive\<close> is true every entry that is no root marker is kept.
\<close>

theorem listing_filter:
  "requested_path (Some q) = q
   \<and> (list_objects client (project_id self) (listing_prefix self path_arg) s = Some (objs, calls, s')
      \<longrightarrow> (\<exists>res. list_artifacts client conv self path_arg recursive s = Some (res, calls, s')
            \<and> res = filter (\<lambda>i. file_info.path i \<noteq> ''/'' \<and> file_info.path i \<noteq> ''.''
                              \<and> (recursive \<or> dirname (file_info.path i) = []
                                   \<or> dirname (file_info.path i) = requested_path path_arg))
                       (map (\<lambda>obj. conv obj (datasets_artifact_root self)) objs)
            \<and> (recursive \<longrightarrow>
                 res = filter (\<lambda>i. file_info.path i \<noteq> ''/'' \<and> file_info.path i \<noteq> ''.'')
                         (map (\<lambda>obj. conv obj (datasets_artifact_root self)) objs))
            \<and> subseq res (map (\<lambda>obj. conv obj (datasets_artifact_root self)) objs)))"
proof (intro conjI impI)
  show "requested_path (Some q) = q" by (simp add: requested_path_def)
next
  assume l: "list_objects client (project_id self) (listing_prefix self path_arg) s
               = Some (objs, calls, s')"
  let ?infos = "map (\<lambda>obj. conv obj (datasets_artifact_root self)) objs"
  let ?res = "filter (keep (requested_path path_arg) recursive) ?infos"
  have 1: "list_artifacts client conv self path_arg recursive s = Some (?res, calls, s')"
    by (simp add: list_artifacts_unfold l)
  have 2: "?res = filter (\<lambda>i. file_info.path i \<noteq> ''/'' \<and> file_info.path i \<noteq> ''.''
                              \<and> (recursive \<or> dirname (file_info.path i) = []
                                   \<or> dirname (file_info.path i) = requested_path path_arg)) ?infos"
    by (rule filter_cong) (simp_all add: keep_iff)
  have 3: "recursive \<longrightarrow>
             ?res = filter (\<lambda>i. file_info.path i \<noteq> ''/'' \<and> file_info.path i \<noteq> ''.'') ?infos"
    by (auto intro!: filter_cong simp: keep_iff)
  have 4: "subseq ?res ?infos" by simp
  from 1 2 3 4 show "\<exists>res. list_artifacts client conv self path_arg recursive s = Some (res, calls, s')
            \<and> res = filter (\<lambda>i. file_info.path i \<noteq> ''/'' \<and> file_info.path i \<noteq> ''.''
                              \<and> (recursive \<or> dirname (file_info.path i) = []
                                   \<or> dirname (file_info.path i) = requested_path path_arg))
                       (map (\<lambda>obj. conv obj (datasets_artifact_root self)) objs)
            \<and> (recursive \<longrightarrow>
                 res = filter (\<lambda>i. file_info.path i \<noteq> ''/'' \<and> file_info.path i \<noteq> ''.'')
                         (map (\<lambda>obj. conv obj (datasets_artifact_root self)) objs))
            \<and> subseq res (map (\<lambda>obj. conv obj (datasets_artifact_root self)) objs)"
    by blast
qed

theorem listing_filter_witness:
  "\<exists>res. list_artifacts two_pages example_converter
            \<lparr>project_id = (7::nat), datasets_artifact_root = ''/path/in/datasets/''\<rparr>
            (Some ''a/dir'') True 0
          = Some (res, [ListCall 7 ''/path/in/datasets/a/dir/'' None,
                        ListCall 7 ''/path/in/datasets/a/dir/'' (Some ''token'')], 2)
       \<and> res = map (\<lambda>obj. example_converter obj ''/path/in/datasets/'') [0, 1, 2, 3, 4, 5, 6, 7, 8]"
proof -
  let ?self = "\<lparr>project_id = (7::nat), datasets_artifact_root = ''/path/in/datasets/''\<rparr>"
  have pf: "listing_prefix ?self (Some ''a/dir'') = ''/path/in/datasets/a/dir/''"
    by code_simp
  have l: "list_objects two_pages (project_id ?self) (listing_prefix ?self (Some ''a/dir'')) 0
             = Some ([0, 1, 2, 3, 4, 5, 6, 7, 8, 9],
                     [ListCall 7 ''/path/in/datasets/a/dir/'' None,
                      ListCall 7 ''/path/in/datasets/a/dir/'' (Some ''token'')], 2)"
    unfolding pf by (simp add: list_objects_def two_pages_def list_loop_None list_loop_Some)
  from listing_filter[of "''a/dir''" two_pages ?self "Some ''a/dir''" 0 _ _ _ example_converter True,
         THEN conjunct2, rule_format, OF l]
  show ?thesis
    by (simp add: example_converter_def)
qed

subsection \<open>The default path of a listing\<close>

lemma rstrip_last: "rstrip cs s = [] \<or> last (rstrip cs s) \<notin> set cs"
proof (cases "dropWhile (\<lambda>c. c \<in> set cs) (rev s)")
  case Nil
  then show ?thesis by (simp add: rstrip_def)
next
  case (Cons a t)
  have "\<not> (hd (dropWhile (\<lambda>c. c \<in> set cs) (rev s)) \<in> set cs)"
    by (rule hd_dropWhile) (simp add: Cons)
  then have "a \<notin> set cs" by (simp add: Cons)
  then show ?thesis by (simp add: rstrip_def Cons)
qed

lemma dirname_not_dot_slash: "dirname q \<noteq> ''./''"
proof
  assume a: "dirname q = ''./''"
  let ?head = "rev (dropWhile (\<lambda>c. c \<noteq> sep) (rev q))"
  show False
  proof (cases "?head \<noteq> [] \<and> ?head \<noteq> replicate (length ?head) sep")
    case True
    have "dirname q = rstrip [sep] ?head"
      unfolding dirname_def Let_def by (rule if_P[OF True])
    with a have r: "rstrip [sep] ?head = ''./''" by simp
    from rstrip_last[of "[sep]" ?head] show False unfolding r by simp
  next
    case False
    have "dirname q = ?head"
      unfolding dirname_def Let_def by (rule if_not_P[OF False])
    with a have h: "?head = ''./''" by simp
    from False have "?head = [] \<or> ?head = replicate (length ?head) sep" by blast
    then show False unfolding h by simp
  qed
qed

lemma dirname_root: "dirname ''/'' = ''/''"
  by (simp add: dirname_def)

lemma keep_default:
  "keep ''./'' False = (\<lambda>i. file_info.path i \<noteq> ''.'' \<and> dirname (file_info.path i) = [])"
proof (rule ext)
  fix i
  show "keep ''./'' False i \<longleftrightarrow> file_info.path i \<noteq> ''.'' \<and> dirname (file_info.path i) = []"
    using dirname_not_dot_slash[of "file_info.path i"] dirname_root
    by (auto simp: keep_iff)
qed

text \<open>
  C10, as the code has it. A listing with path \<^verbatim>\<open>None\<close> compares parent directories with
  \<^verbatim>\<open>./\<close>, which \<^verbatim>\<open>dirname\<close> never returns; so a non-recursive listing with the default path
  keeps exactly the entries whose parent directory is empty and whose display path is not
  the root marker \<^verbatim>\<open>.\<close> (whose parent directory is empty as well).
\<close>

theorem default_listing:
  "requested_path None = ''./''
   \<and> (\<forall>q. dirname q \<noteq> ''./'')
   \<and> (list_objects client (project_id self) (listing_prefix self None) s = Some (objs, calls, s')
      \<longrightarrow> list_artifacts client conv self None False s
           = Some (filter (\<lambda>i. file_info.path i \<noteq> ''.'' \<and> dirname (file_info.path i) = [])
                     (map (\<lambda>obj. conv obj (datasets_artifact_root self)) objs),
                   calls, s'))"
proof (intro conjI impI allI)
  show r: "requested_path None = ''./''" by (simp add: requested_path_def)
  show "dirname q \<noteq> ''./''" for q by (rule dirname_not_dot_slash)
  assume "list_objects client (project_id self) (listing_prefix self None) s = Some (objs, calls, s')"
  then show "list_artifacts client conv self None False s
           = Some (filter (\<lambda>i. file_info.path i \<noteq> ''.'' \<and> dirname (file_info.path i) = [])
                     (map (\<lambda>obj. conv obj (datasets_artifact_root self)) objs),
                   calls, s')"
    by (simp add: list_artifacts_unfold r keep_default)
qed

theorem default_listing_witness:
  "list_artifacts one_page dot_converter
     \<lparr>project_id = (7::nat), datasets_artifact_root = ''/''\<rparr> None False ()
   = Some ([], [ListCall 7 ''/'' None], ())"
proof -
  let ?self = "\<lparr>project_id = (7::nat), datasets_artifact_root = ''/''\<rparr>"
  have pf: "listing_prefix ?self None = ''/''"
    by code_simp
  have l: "list_objects one_page (project_id ?self) (listing_prefix ?self None) ()
             = Some ([()], [ListCall 7 ''/'' None], ())"
    unfolding pf by (simp add: list_objects_def one_page_def list_loop_None)
  from default_listing[of one_page ?self "()" _ _ _ dot_converter,
         THEN conjunct2, THEN conjunct2, rule_format, OF l]
  show ?thesis
    by (simp add: dot_converter_def)
qed

text \<open>
  C10, as the specification states it, fails: an entry with display path \<^verbatim>\<open>.\<close> has an empty
  parent directory and is dropped all the same.
\<close>

theorem default_listing_counterexample:
  "list_artifacts one_page dot_converter
     \<lparr>project_id = (7::nat), datasets_artifact_root = ''/''\<rparr> None False ()
     = Some ([], [ListCall 7 ''/'' None], ())
   \<and> list_objects one_page (7::nat) ''/'' () = Some ([()], [ListCall 7 ''/'' None], ())
   \<and> filter (\<lambda>i. dirname (file_info.path i) = []) (map (\<lambda>obj. dot_converter obj ''/'') [()])
       = [\<lparr>path = ''.'', is_dir = True, file_size = None\<rparr>]"
proof (intro conjI)
  have pf: "listing_prefix \<lparr>project_id = (7::nat), datasets_artifact_root = ''/''\<rparr> None = ''/''"
    by code_simp
  show l: "list_objects one_page (7::nat) ''/'' () = Some ([()], [ListCall 7 ''/'' None], ())"
    by (simp add: list_objects_def one_page_def list_loop_None)
  show "list_artifacts one_page dot_converter
     \<lparr>project_id = (7::nat), datasets_artifact_root = ''/''\<rparr> None False ()
     = Some ([], [ListCall 7 ''/'' None], ())"
    by (simp add: list_artifacts_unfold pf l dot_converter_def keep_def)
  show "filter (\<lambda>i. dirname (file_info.path i) = []) (map (\<lambda>obj. dot_converter obj ''/'') [()])
       = [\<lparr>path = ''.'', is_dir = True, file_size = None\<rparr>]"
    by (simp add: dot_converter_def dirname_def)
qed


subsection \<open>Separators at the ends of a string\<close>

lemma startswith_sep: "startswith s [c] \<longleftrightarrow> s \<noteq> [] \<and> hd s = c"
  by (cases s) (auto simp: startswith_def)

lemma endswith_sep: "endswith s [c] \<longleftrightarrow> s \<noteq> [] \<and> last s = c"
proof (cases s rule: rev_cases)
  case Nil
  then show ?thesis by (simp add: endswith_def)
next
  case (snoc t x)
  then show ?thesis by (simp add: endswith_def)
qed

lemma lstrip_replicate: "lstrip [sep] (replicate n sep @ p) = lstrip [sep] p"
  by (induction n) (simp_all add: lstrip_def)

lemma lstrip_idem: "lstrip [sep] (lstrip [sep] p) = lstrip [sep] p"
  by (simp add: lstrip_def dropWhile_idem)

lemma lstrip_not_startswith: "\<not> startswith (lstrip [sep] p) [sep]"
proof -
  have "dropWhile (\<lambda>c. c \<in> set [sep]) p \<noteq> [] \<Longrightarrow>
          \<not> (hd (dropWhile (\<lambda>c. c \<in> set [sep]) p) \<in> set [sep])"
    by (rule hd_dropWhile)
  then show ?thesis by (auto simp: startswith_sep lstrip_def)
qed

lemma lstrip_id: "\<not> startswith s [sep] \<Longrightarrow> lstrip [sep] s = s"
  by (cases s) (auto simp: startswith_sep lstrip_def)

lemma basename_no_sep: "sep \<notin> set (basename f)"
proof -
  have "\<forall>x \<in> set (takeWhile (\<lambda>c. c \<noteq> sep) (rev f)). x \<noteq> sep"
    by (metis set_takeWhileD)
  then show ?thesis by (auto simp: basename_def)
qed

lemma not_startswith_no_sep: "sep \<notin> set b \<Longrightarrow> \<not> startswith b [sep]"
  by (cases b) (auto simp: startswith_sep)

lemma join_Cons_sep:
  assumes "\<not> startswith b [sep]"
  shows "lstrip [sep] (join (sep # a) b) = lstrip [sep] (join a b)"
proof (cases "a = []")
  case True
  with assms show ?thesis by (simp add: join_def endswith_sep lstrip_def)
next
  case False
  with assms show ?thesis by (simp add: join_def endswith_sep lstrip_def)
qed

lemma lstrip_join:
  assumes "\<not> startswith b [sep]"
  shows "lstrip [sep] (join a b) = lstrip [sep] (join (lstrip [sep] a) b)"
proof (induction a)
  case Nil
  show ?case by (simp add: lstrip_def)
next
  case (Cons x xs)
  show ?case
  proof (cases "x = sep")
    case True
    have "lstrip [sep] (join (x # xs) b) = lstrip [sep] (join xs b)"
      unfolding True by (rule join_Cons_sep[OF assms])
    also have "\<dots> = lstrip [sep] (join (lstrip [sep] xs) b)" by (rule Cons.IH)
    also have "lstrip [sep] xs = lstrip [sep] (x # xs)" using True by (simp add: lstrip_def)
    finally show ?thesis .
  next
    case False
    then have "lstrip [sep] (x # xs) = x # xs" by (simp add: lstrip_def)
    then show ?thesis by simp
  qed
qed

subsection \<open>Leading separators of the caller's path\<close>

lemma datasets_path_lstrip:
  "lstrip [sep] a = lstrip [sep] b \<Longrightarrow> datasets_path self a = datasets_path self b"
  by (simp add: datasets_path_def)

lemma keep_recursive: "keep p True = keep q True"
  by (rule ext) (simp add: keep_def)

text \<open>
  C9, as the code has it. The dataset path of a caller path does not depend on its leading
  separators: with any number of separators put in front of \<open>p\<close> it is the dataset path of
  \<open>p\<close> without its leading separators. So \<^verbatim>\<open>/a/b\<close> is taken relative to the stored root, as
  \<^verbatim>\<open>a/b\<close> is: \<^verbatim>\<open>log_artifact\<close>, \<^verbatim>\<open>log_artifacts\<close> and the download delegate the same call,
  and a listing sends the same prefix, makes the same calls on the store and, when recursive,
  returns the same entries.
\<close>

theorem leading_separators:
  "datasets_path self (replicate n sep @ p) = datasets_path self (lstrip [sep] p)
   \<and> datasets_path self ''/a/b'' = datasets_path self ''a/b''
   \<and> log_artifact self f (Some (replicate n sep @ p)) = log_artifact self f (Some (lstrip [sep] p))
   \<and> log_artifacts self d (Some (replicate n sep @ p)) = log_artifacts self d (Some (lstrip [sep] p))
   \<and> download_file self (replicate n sep @ p) l = download_file self (lstrip [sep] p) l
   \<and> listing_prefix self (Some (replicate n sep @ p)) = listing_prefix self (Some (lstrip [sep] p))
   \<and> map_option snd (list_artifacts client conv self (Some (replicate n sep @ p)) recursive s)
       = map_option snd (list_artifacts client conv self (Some (lstrip [sep] p)) recursive s)
   \<and> list_artifacts client conv self (Some (replicate n sep @ p)) True s
       = list_artifacts client conv self (Some (lstrip [sep] p)) True s"
proof -
  have e: "lstrip [sep] (replicate n sep @ p) = lstrip [sep] (lstrip [sep] p)"
    by (simp only: lstrip_replicate lstrip_idem)
  have 1: "datasets_path self (replicate n sep @ p) = datasets_path self (lstrip [sep] p)"
    by (rule datasets_path_lstrip[OF e])
  have 2: "datasets_path self ''/a/b'' = datasets_path self ''a/b''"
    by (rule datasets_path_lstrip) (simp add: lstrip_def)
  have b: "\<not> startswith (basename f) [sep]"
    by (rule not_startswith_no_sep[OF basename_no_sep])
  have "lstrip [sep] (join (replicate n sep @ p) (basename f))
          = lstrip [sep] (join (lstrip [sep] (replicate n sep @ p)) (basename f))"
    by (rule lstrip_join[OF b])
  also have "\<dots> = lstrip [sep] (join (lstrip [sep] (lstrip [sep] p)) (basename f))"
    by (simp only: e)
  also have "\<dots> = lstrip [sep] (join (lstrip [sep] p) (basename f))"
    by (rule lstrip_join[OF b, symmetric])
  finally have "datasets_path self (join (replicate n sep @ p) (basename f))
                  = datasets_path self (join (lstrip [sep] p) (basename f))"
    by (rule datasets_path_lstrip)
  then have 3: "log_artifact self f (Some (replicate n sep @ p))
                  = log_artifact self f (Some (lstrip [sep] p))"
    by (simp add: log_artifact_def)
  have 4: "log_artifacts self d (Some (replicate n sep @ p))
             = log_artifacts self d (Some (lstrip [sep] p))"
    by (simp add: log_artifacts_def 1)
  have 5: "download_file self (replicate n sep @ p) l = download_file self (lstrip [sep] p) l"
    by (simp add: download_file_def 1)
  have 6: "listing_prefix self (Some (replicate n sep @ p))
             = listing_prefix self (Some (lstrip [sep] p))"
    by (simp add: listing_prefix_def requested_path_def 1)
  have 7: "map_option snd (list_artifacts client conv self (Some (replicate n sep @ p)) recursive s)
       = map_option snd (list_artifacts client conv self (Some (lstrip [sep] p)) recursive s)"
    by (simp add: list_artifacts_unfold 6 option.map_comp comp_def case_prod_unfold)
  have 8: "list_artifacts client conv self (Some (replicate n sep @ p)) True s
       = list_artifacts client conv self (Some (lstrip [sep] p)) True s"
    unfolding list_artifacts_unfold 6
      keep_recursive[of "requested_path (Some (replicate n sep @ p))"
                        "requested_path (Some (lstrip [sep] p))"] ..
  from 1 2 3 4 5 6 7 8 show ?thesis by (intro conjI)
qed


text \<open>
  C9, as the specification states it, fails for a listing that is not recursive: the entries
  are filtered by comparing their parent directory with the path argument as the caller
  wrote it, so \<^verbatim>\<open>dir\<close> keeps the entry \<^verbatim>\<open>dir/a\<close> and \<^verbatim>\<open>/dir\<close> drops it.
\<close>

theorem leading_separators_counterexample:
  "list_artifacts one_page dir_converter
      \<lparr>project_id = (7::nat), datasets_artifact_root = ''/path/in/datasets/''\<rparr>
      (Some ''dir'') False ()
     = Some ([\<lparr>path = ''dir/a'', is_dir = False, file_size = Some 1\<rparr>],
             [ListCall 7 ''/path/in/datasets/dir/'' None], ())
   \<and> list_artifacts one_page dir_converter
      \<lparr>project_id = (7::nat), datasets_artifact_root = ''/path/in/datasets/''\<rparr>
      (Some ''/dir'') False ()
     = Some ([], [ListCall 7 ''/path/in/datasets/dir/'' None], ())"
proof (intro conjI)
  let ?self = "\<lparr>project_id = (7::nat), datasets_artifact_root = ''/path/in/datasets/''\<rparr>"
  have p1: "listing_prefix ?self (Some ''dir'') = ''/path/in/datasets/dir/''" by code_simp
  have p2: "listing_prefix ?self (Some ''/dir'') = ''/path/in/datasets/dir/''" by code_simp
  have l: "list_objects one_page (7::nat) ''/path/in/datasets/dir/'' ()
             = Some ([()], [ListCall 7 ''/path/in/datasets/dir/'' None], ())"
    by (simp add: list_objects_def one_page_def list_loop_None)
  have d: "dirname ''dir/a'' = ''dir''" by code_simp
  show "list_artifacts one_page dir_converter ?self (Some ''dir'') False ()
     = Some ([\<lparr>path = ''dir/a'', is_dir = False, file_size = Some 1\<rparr>],
             [ListCall 7 ''/path/in/datasets/dir/'' None], ())"
    by (simp add: list_artifacts_unfold p1 l dir_converter_def keep_def d requested_path_def)
  show "list_artifacts one_page dir_converter ?self (Some ''/dir'') False ()
     = Some ([], [ListCall 7 ''/path/in/datasets/dir/'' None], ())"
    by (simp add: list_artifacts_unfold p2 l dir_converter_def keep_def d requested_path_def)
qed

subsection \<open>Normalisation\<close>

lemma split_append_sep: "split c (a @ c # b) = split c a @ split c b"
proof (induction a)
  case Nil
  show ?case by simp
next
  case (Cons x xs)
  obtain q qs where s: "split c xs = q # qs"
    using split_not_Nil[of c xs] by (cases "split c xs") auto
  show ?case using Cons.IH by (simp add: s)
qed

lemma split_no_sep: "c \<notin> set a \<Longrightarrow> split c a = [a]"
  by (induction a) auto

lemma split_snoc_sep: "split c (a @ [c]) = split c a @ [[]]"
  using split_append_sep[of c a "[]"] by simp

lemma norm_step_skip [simp]:
  "norm_step k acc [] = acc" "norm_step k acc ''.'' = acc"
  by (simp_all add: norm_step_def)

lemma foldl_norm_no_dotdot:
  "''..'' \<notin> set xs \<Longrightarrow>
   foldl (norm_step k) acc xs = acc @ filter (\<lambda>c. c \<noteq> [] \<and> c \<noteq> ''.'') xs"
proof (induction xs arbitrary: acc)
  case Nil
  show ?case by simp
next
  case (Cons x xs)
  from Cons.prems have x: "x \<noteq> ''..''" and xs: "''..'' \<notin> set xs" by auto
  have "norm_step k acc x = (if x \<noteq> [] \<and> x \<noteq> ''.'' then acc @ [x] else acc)"
    using x by (simp add: norm_step_def)
  then show ?case using Cons.IH[OF xs] by simp
qed

lemma normpath_absolute:
  assumes "0 < initial_slashes p"
  shows "normpath p = replicate (initial_slashes p) sep
           @ join_str [sep] (foldl (norm_step (initial_slashes p)) [] (split sep p))"
proof -
  from assms have "p \<noteq> []" by (auto simp: initial_slashes_def startswith_sep)
  with assms show ?thesis by (auto simp: normpath_def Let_def)
qed


lemma initial_slashes_append:
  assumes "root \<noteq> []" "\<not> startswith b [sep]"
  shows "initial_slashes (root @ b) = initial_slashes root"
proof -
  consider x where "root = [x]"
    | x y where "root = [x, y]"
    | x y z r where "root = x # y # z # r"
    using assms(1) by (cases root; cases "tl root"; cases "tl (tl root)") auto
  then show ?thesis
  proof cases
    case 1
    with assms(2) show ?thesis
      by (cases b) (auto simp: initial_slashes_def startswith_def)
  next
    case 2
    with assms(2) show ?thesis
      by (cases b) (auto simp: initial_slashes_def startswith_def)
  next
    case 3
    then show ?thesis by (simp add: initial_slashes_def startswith_def)
  qed
qed

lemma initial_slashes_append_sep:
  assumes "root \<noteq> []" "\<not> endswith root [sep]"
  shows "initial_slashes (root @ sep # b) = initial_slashes root"
proof -
  consider x where "root = [x]"
    | x y where "root = [x, y]"
    | x y z r where "root = x # y # z # r"
    using assms(1) by (cases root; cases "tl root"; cases "tl (tl root)") auto
  then show ?thesis
  proof cases
    case 1
    with assms(2) show ?thesis
      by (auto simp: initial_slashes_def startswith_def endswith_sep)
  next
    case 2
    with assms(2) show ?thesis
      by (auto simp: initial_slashes_def startswith_def endswith_sep)
  next
    case 3
    then show ?thesis by (simp add: initial_slashes_def startswith_def)
  qed
qed

lemma initial_slashes_join:
  assumes "root \<noteq> []" "\<not> startswith b [sep]"
  shows "initial_slashes (join root b) = initial_slashes root"
proof (cases "endswith root [sep]")
  case True
  then have "join root b = root @ b" using assms by (simp add: join_def)
  then show ?thesis using initial_slashes_append[OF assms] by simp
next
  case False
  then have "join root b = root @ sep # b" using assms by (simp add: join_def)
  then show ?thesis using initial_slashes_append_sep[OF assms(1) False] by simp
qed

lemma comps_join:
  assumes "root \<noteq> []" "\<not> startswith b [sep]"
  shows "foldl (norm_step k) [] (split sep (join root b))
           = foldl (norm_step k) (foldl (norm_step k) [] (split sep root)) (split sep b)"
proof (cases "endswith root [sep]")
  case True
  then obtain r where r: "root = r @ [sep]"
    by (cases root rule: rev_cases) (auto simp: endswith_sep)
  have j: "join root b = r @ sep # b" using assms True by (simp add: join_def r)
  show ?thesis unfolding j unfolding r by (simp add: split_append_sep split_snoc_sep)
next
  case False
  then have j: "join root b = root @ sep # b" using assms by (simp add: join_def)
  show ?thesis unfolding j by (simp add: split_append_sep)
qed

lemma join_str_append:
  "a \<noteq> [] \<Longrightarrow> e \<noteq> [] \<Longrightarrow> join_str j (a @ e) = join_str j a @ j @ join_str j e"
proof (induction j a rule: join_str.induct)
  case (1 j)
  then show ?case by simp
next
  case (2 j p)
  then show ?case by (cases e) simp_all
next
  case (3 j p q ps)
  then show ?case by simp
qed

lemma join_str_snoc:
  "join_str [sep] (cs @ [b]) = concat (map (\<lambda>c. c @ [sep]) cs) @ b"
proof (induction cs)
  case Nil
  show ?case by simp
next
  case (Cons c cs)
  obtain x xs where "cs @ [b] = x # xs" by (cases "cs @ [b]") auto
  then show ?case using Cons.IH by simp
qed


lemma split_segments:
  "\<forall>c \<in> set cs. sep \<notin> set c \<Longrightarrow>
   split sep (concat (map (\<lambda>c. c @ [sep]) cs) @ t) = cs @ split sep t"
proof (induction cs)
  case Nil
  show ?case by simp
next
  case (Cons c cs)
  then have c: "sep \<notin> set c" and cs: "\<forall>c \<in> set cs. sep \<notin> set c" by auto
  have "split sep (concat (map (\<lambda>c. c @ [sep]) (c # cs)) @ t)
          = split sep (c @ sep # (concat (map (\<lambda>c. c @ [sep]) cs) @ t))"
    by simp
  also have "\<dots> = split sep c @ split sep (concat (map (\<lambda>c. c @ [sep]) cs) @ t)"
    by (rule split_append_sep)
  also have "\<dots> = [c] @ (cs @ split sep t)"
    by (simp only: split_no_sep[OF c] Cons.IH[OF cs])
  finally show ?case by simp
qed




lemma plain_segments_no_dotdot:
  "\<forall>c \<in> set cs. plain_segment c \<Longrightarrow> ''..'' \<notin> set cs"
  by (auto simp: plain_segment_def)

lemma plain_segments_filter:
  "\<forall>c \<in> set cs. plain_segment c \<Longrightarrow> filter (\<lambda>c. c \<noteq> [] \<and> c \<noteq> ''.'') cs = cs"
  by (induction cs) (auto simp: plain_segment_def)

lemma segments_not_startswith:
  assumes "\<forall>c \<in> set cs. plain_segment c" "\<not> startswith t [sep]"
  shows "\<not> startswith (concat (map (\<lambda>c. c @ [sep]) cs) @ t) [sep]"
proof (cases cs)
  case Nil
  with assms show ?thesis by simp
next
  case (Cons c ds)
  with assms(1) have "c \<noteq> []" "sep \<notin> set c" by (auto simp: plain_segment_def)
  then obtain x xs where "c = x # xs" "x \<noteq> sep" by (cases c) auto
  then show ?thesis by (simp add: Cons startswith_sep)
qed

lemma normpath_root_of_segments:
  assumes "\<forall>c \<in> set cs. plain_segment c" "\<not> startswith t [sep]" "''..'' \<notin> set (split sep t)"
  shows "normpath (root_of_segments cs @ t)
           = sep # join_str [sep] (cs @ filter (\<lambda>c. c \<noteq> [] \<and> c \<noteq> ''.'') (split sep t))"
proof -
  let ?X = "concat (map (\<lambda>c. c @ [sep]) cs) @ t"
  have p: "root_of_segments cs @ t = sep # ?X" by (simp add: root_of_segments_def)
  have nx: "\<not> startswith ?X [sep]" by (rule segments_not_startswith[OF assms(1,2)])
  have k: "initial_slashes (sep # ?X) = 1"
    using nx by (cases ?X) (auto simp: initial_slashes_def startswith_def)
  have sf: "\<forall>c \<in> set cs. sep \<notin> set c" using assms(1) by (auto simp: plain_segment_def)
  have sp: "split sep (sep # ?X) = [] # cs @ split sep t"
    by (simp add: split_segments[OF sf])
  have nd: "''..'' \<notin> set ([] # cs @ split sep t)"
    using plain_segments_no_dotdot[OF assms(1)] assms(3) by simp
  have "foldl (norm_step 1) [] (split sep (sep # ?X))
          = cs @ filter (\<lambda>c. c \<noteq> [] \<and> c \<noteq> ''.'') (split sep t)"
    unfolding sp foldl_norm_no_dotdot[OF nd]
    by (simp add: plain_segments_filter[OF assms(1)])
  then show ?thesis
    unfolding p using normpath_absolute[of "sep # ?X"] k by simp
qed



subsection \<open>Uploading a directory\<close>




subsection \<open>Uploading a file\<close>

lemma join_dot_basename: "join ''./'' (basename f) = ''./'' @ basename f"
  using not_startswith_no_sep[OF basename_no_sep, of f]
  by (simp add: join_def endswith_sep)

lemma log_artifact_unfold:
  "log_artifact self f None
     = Put f (normpath (join (datasets_artifact_root self) (''./'' @ basename f))) (project_id self)"
  by (simp add: log_artifact_def datasets_path_def join_dot_basename Let_def lstrip_def)

text \<open>
  C6, as the code has it. \<^verbatim>\<open>log_artifact\<close> with destination \<^verbatim>\<open>None\<close> does what it does with
  destination \<^verbatim>\<open>./\<close>: it delegates the upload of the local file, with the project, to the
  normalised join of the stored root and \<^verbatim>\<open>./\<close> followed by the base name of the local file.
  That is the stored root followed by the base name when the stored root is made of plain
  segments and the base name is none of the empty string, \<^verbatim>\<open>.\<close> and \<^verbatim>\<open>..\<close>.
\<close>

theorem log_artifact_destination:
  "log_artifact self f None = log_artifact self f (Some ''./'')
   \<and> log_artifact self f None
       = Put f (normpath (join (datasets_artifact_root self) (''./'' @ basename f)))
           (project_id self)
   \<and> (datasets_artifact_root self = root_of_segments cs \<and> (\<forall>c \<in> set cs. plain_segment c)
        \<and> basename f \<noteq> [] \<and> basename f \<noteq> ''.'' \<and> basename f \<noteq> ''..''
      \<longrightarrow> log_artifact self f None
            = Put f (datasets_artifact_root self @ basename f) (project_id self))"
proof (intro conjI impI)
  show "log_artifact self f None = log_artifact self f (Some ''./'')"
    by (simp add: log_artifact_def)
  show u: "log_artifact self f None
       = Put f (normpath (join (datasets_artifact_root self) (''./'' @ basename f)))
           (project_id self)"
    by (rule log_artifact_unfold)
  assume a: "datasets_artifact_root self = root_of_segments cs \<and> (\<forall>c \<in> set cs. plain_segment c)
        \<and> basename f \<noteq> [] \<and> basename f \<noteq> ''.'' \<and> basename f \<noteq> ''..''"
  then have r: "datasets_artifact_root self = root_of_segments cs"
    and pl: "\<forall>c \<in> set cs. plain_segment c"
    and b: "basename f \<noteq> []" "basename f \<noteq> ''.''" "basename f \<noteq> ''..''"
    by simp_all
  let ?t = "''./'' @ basename f"
  have t1: "\<not> startswith ?t [sep]" by (simp add: startswith_def)
  have sp: "split sep ?t = [''.'', basename f]"
    using split_append_sep[of sep "''.''" "basename f"] split_no_sep[OF basename_no_sep, of f]
    by simp
  have t2: "''..'' \<notin> set (split sep ?t)" unfolding sp using b by simp
  have e: "endswith (root_of_segments cs) [sep]"
    by (cases cs rule: rev_cases) (simp_all add: root_of_segments_def endswith_sep)
  have j: "join (root_of_segments cs) ?t = root_of_segments cs @ ?t"
    using t1 e by (simp add: join_def)
  have "normpath (root_of_segments cs @ ?t) = sep # join_str [sep] (cs @ [basename f])"
    unfolding normpath_root_of_segments[OF pl t1 t2] sp using b by simp
  also have "\<dots> = root_of_segments cs @ basename f"
    by (simp add: join_str_snoc root_of_segments_def)
  finally show "log_artifact self f None
            = Put f (datasets_artifact_root self @ basename f) (project_id self)"
    unfolding u r j by simp
qed

theorem log_artifact_destination_witness:
  "log_artifact \<lparr>project_id = (7::nat), datasets_artifact_root = ''/path/in/datasets/''\<rparr>
      ''/local/file.txt'' None
     = Put ''/local/file.txt'' ''/path/in/datasets/file.txt'' 7"
proof -
  let ?self = "\<lparr>project_id = (7::nat), datasets_artifact_root = ''/path/in/datasets/''\<rparr>"
  have bn: "basename ''/local/file.txt'' = ''file.txt''" by (simp add: basename_def)
  have h: "datasets_artifact_root ?self = root_of_segments [''path'', ''in'', ''datasets'']
           \<and> (\<forall>c \<in> set [''path'', ''in'', ''datasets'']. plain_segment c)
           \<and> basename ''/local/file.txt'' \<noteq> [] \<and> basename ''/local/file.txt'' \<noteq> ''.''
           \<and> basename ''/local/file.txt'' \<noteq> ''..''"
    unfolding bn by (simp add: root_of_segments_def plain_segment_def)
  from log_artifact_destination[of ?self "''/local/file.txt''" "[''path'', ''in'', ''datasets'']",
         THEN conjunct2, THEN conjunct2, rule_format, OF h]
  show ?thesis by (simp add: bn)
qed

text \<open>
  C6, as the specification states it, fails twice. A stored root with an empty segment, such
  as the constructor stores for \<^verbatim>\<open>faculty-datasets:<uuid>/a//b\<close>, is normalised in the
  destination; and a local path that ends with a separator has an empty base name, so
  normalisation takes the trailing separator of the root away.
\<close>

theorem log_artifact_destination_counterexample:
  "init urlparse UUID ''faculty-datasets:12345678-1234-5678-1234-567812345678/a//b''
     = Inr \<lparr>project_id = 24197857161011715162171839636988778104,
            datasets_artifact_root = ''/a//b/''\<rparr>
   \<and> log_artifact \<lparr>project_id = 24197857161011715162171839636988778104 :: int,
                    datasets_artifact_root = ''/a//b/''\<rparr> ''/local/file.txt'' None
     = Put ''/local/file.txt'' ''/a/b/file.txt'' 24197857161011715162171839636988778104
   \<and> ''/a//b/'' @ basename ''/local/file.txt'' = ''/a//b/file.txt''
   \<and> log_artifact \<lparr>project_id = 24197857161011715162171839636988778104 :: int,
                    datasets_artifact_root = ''/path/in/datasets/''\<rparr> ''/local/dir/'' None
     = Put ''/local/dir/'' ''/path/in/datasets'' 24197857161011715162171839636988778104
   \<and> ''/path/in/datasets/'' @ basename ''/local/dir/'' = ''/path/in/datasets/''"
proof (intro conjI)
  show "init urlparse UUID ''faculty-datasets:12345678-1234-5678-1234-567812345678/a//b''
     = Inr \<lparr>project_id = 24197857161011715162171839636988778104,
            datasets_artifact_root = ''/a//b/''\<rparr>"
    by code_simp
  show "log_artifact \<lparr>project_id = 24197857161011715162171839636988778104 :: int,
                    datasets_artifact_root = ''/a//b/''\<rparr> ''/local/file.txt'' None
     = Put ''/local/file.txt'' ''/a/b/file.txt'' 24197857161011715162171839636988778104"
    by code_simp
  show "''/a//b/'' @ basename ''/local/file.txt'' = ''/a//b/file.txt''"
    by (simp add: basename_def)
  show "log_artifact \<lparr>project_id = 24197857161011715162171839636988778104 :: int,
                    datasets_artifact_root = ''/path/in/datasets/''\<rparr> ''/local/dir/'' None
     = Put ''/local/dir/'' ''/path/in/datasets'' 24197857161011715162171839636988778104"
    by code_simp
  show "''/path/in/datasets/'' @ basename ''/local/dir/'' = ''/path/in/datasets/''"
    by (simp add: basename_def)
qed


subsection \<open>Staying under the root\<close>

lemma split_lstrip_subset: "set (split sep (lstrip [sep] p)) \<subseteq> set (split sep p)"
proof (induction p)
  case Nil
  show ?case by (simp add: lstrip_def)
next
  case (Cons x xs)
  show ?case
  proof (cases "x = sep")
    case True
    then have "lstrip [sep] (x # xs) = lstrip [sep] xs" by (simp add: lstrip_def)
    then show ?thesis using Cons.IH True by auto
  next
    case False
    then have "lstrip [sep] (x # xs) = x # xs" by (simp add: lstrip_def)
    then show ?thesis by simp
  qed
qed

lemma normpath_join_under:
  assumes "startswith root [sep]" "\<not> startswith b [sep]" "''..'' \<notin> set (split sep b)"
  shows "lies_under root (normpath (join root b))"
proof -
  let ?k = "initial_slashes root"
  let ?A = "foldl (norm_step ?k) [] (split sep root)"
  let ?E = "filter (\<lambda>c. c \<noteq> [] \<and> c \<noteq> ''.'') (split sep b)"
  from assms(1) have ne: "root \<noteq> []" and k: "0 < ?k"
    by (auto simp: startswith_sep initial_slashes_def)
  have kj: "initial_slashes (join root b) = ?k"
    by (rule initial_slashes_join[OF ne assms(2)])
  have r: "normpath root = replicate ?k sep @ join_str [sep] ?A"
    by (rule normpath_absolute[OF k])
  have "normpath (join root b)
          = replicate ?k sep @ join_str [sep] (foldl (norm_step ?k) [] (split sep (join root b)))"
    using normpath_absolute[of "join root b"] k unfolding kj by simp
  also have "foldl (norm_step ?k) [] (split sep (join root b)) = ?A @ ?E"
    unfolding comps_join[OF ne assms(2)] by (rule foldl_norm_no_dotdot[OF assms(3)])
  finally have q: "normpath (join root b) = replicate ?k sep @ join_str [sep] (?A @ ?E)" .
  show ?thesis
  proof (cases "?E = []")
    case True
    then show ?thesis unfolding lies_under_def Let_def q r by simp
  next
    case E: False
    show ?thesis
    proof (cases "?A = []")
      case True
      have "endswith (replicate ?k sep) [sep]" using k by (simp add: endswith_sep)
      then show ?thesis unfolding lies_under_def Let_def q r True by simp
    next
      case False
      have "join_str [sep] (?A @ ?E) = join_str [sep] ?A @ [sep] @ join_str [sep] ?E"
        by (rule join_str_append[OF False E])
      then have "normpath (join root b)
                   = (replicate ?k sep @ join_str [sep] ?A) @ [sep] @ join_str [sep] ?E"
        unfolding q by simp
      then have "prefix (normpath root @ [sep]) (normpath (join root b))"
        unfolding r by (simp add: prefix_def)
      then show ?thesis unfolding lies_under_def Let_def by blast
    qed
  qed
qed

text \<open>
  C4, as the code has it. The dataset path of a caller path is the normalised join of the
  stored root and the caller path without its leading separators. When the stored root
  starts with the separator, as every stored root does, and no segment of the caller path is
  \<^verbatim>\<open>..\<close>, the dataset path lies under the stored root.
\<close>

theorem datasets_path_under_root:
  "datasets_path self p = normpath (join (datasets_artifact_root self) (lstrip [sep] p))
   \<and> (startswith (datasets_artifact_root self) [sep] \<and> ''..'' \<notin> set (split sep p)
      \<longrightarrow> lies_under (datasets_artifact_root self) (datasets_path self p))"
proof (intro conjI impI)
  show "datasets_path self p = normpath (join (datasets_artifact_root self) (lstrip [sep] p))"
    by (simp add: datasets_path_def)
  assume a: "startswith (datasets_artifact_root self) [sep] \<and> ''..'' \<notin> set (split sep p)"
  then have "''..'' \<notin> set (split sep (lstrip [sep] p))"
    using split_lstrip_subset[of p] by blast
  with a show "lies_under (datasets_artifact_root self) (datasets_path self p)"
    unfolding datasets_path_def
    by (intro normpath_join_under lstrip_not_startswith) simp_all
qed

theorem datasets_path_under_root_witness:
  "lies_under ''/path/in/datasets/''
     (datasets_path \<lparr>project_id = (7::nat), datasets_artifact_root = ''/path/in/datasets/''\<rparr>
        ''/path/to/./file'')
   \<and> datasets_path \<lparr>project_id = (7::nat), datasets_artifact_root = ''/path/in/datasets/''\<rparr>
        ''/path/to/./file'' = ''/path/in/datasets/path/to/file''"
proof -
  let ?self = "\<lparr>project_id = (7::nat), datasets_artifact_root = ''/path/in/datasets/''\<rparr>"
  have h: "startswith (datasets_artifact_root ?self) [sep]
           \<and> ''..'' \<notin> set (split sep ''/path/to/./file'')"
    by (simp add: startswith_def)
  have v: "datasets_path ?self ''/path/to/./file'' = ''/path/in/datasets/path/to/file''"
    by code_simp
  from datasets_path_under_root[of ?self "''/path/to/./file''", THEN conjunct2, rule_format, OF h] v
  show ?thesis by simp
qed

text \<open>
  C4, as the specification states it, fails: a caller path with \<^verbatim>\<open>..\<close> segments leaves the
  stored root.
\<close>

theorem datasets_path_under_root_counterexample:
  "datasets_path \<lparr>project_id = (7::nat), datasets_artifact_root = ''/path/in/datasets/''\<rparr>
      ''../../x'' = ''/path/x''
   \<and> \<not> lies_under ''/path/in/datasets/'' ''/path/x''
   \<and> \<not> prefix ''/path/in/datasets'' ''/path/x''"
proof (intro conjI)
  show "datasets_path \<lparr>project_id = (7::nat), datasets_artifact_root = ''/path/in/datasets/''\<rparr>
      ''../../x'' = ''/path/x''"
    by code_simp
  have n: "normpath ''/path/in/datasets/'' = ''/path/in/datasets''" by code_simp
  show "\<not> lies_under ''/path/in/datasets/'' ''/path/x''"
    unfolding lies_under_def Let_def n by (simp add: endswith_def)
  show "\<not> prefix ''/path/in/datasets'' ''/path/x''" by simp
qed

end
